theory Spec2Isabelle
  imports Main
begin

section \<open>JavaScript values\<close>

text \<open>
  The values that flow through \<^verbatim>\<open>lib/index.js\<close>: arguments of wrapped
  methods, results and errors of the underlying methods, members of the target instance.
  An object is a reference into a heap, so that two values can name the same object.
  \<open>Number n\<close> stands for the JavaScript number \<open>n\<close> where \<open>n\<close> is an integer that a
  double represents exactly and prints in decimal notation; \<open>Function f\<close> is an opaque
  function value.
\<close>

type_synonym addr = nat

datatype val =
    Undefined
  | Null
  | Boolean bool
  | Number int
  | Text string
  | Function nat
  | Object addr

text \<open>
  A heap object lists the members a \<^verbatim>\<open>for (var p in o)\<close> loop visits
  (\<open>enumerable\<close>, in visiting order) and the members it does not visit (\<open>hidden\<close>:
  non-enumerable ones, such as inherited builtins and methods of a class).
\<close>

record jsobject =
  enumerable :: "(string \<times> val) list"
  hidden :: "(string \<times> val) list"

type_synonym heap = "jsobject list"

fun typeof :: "val \<Rightarrow> string" where
  "typeof Undefined = ''undefined''"
| "typeof Null = ''object''"
| "typeof (Boolean b) = ''boolean''"
| "typeof (Number n) = ''number''"
| "typeof (Text s) = ''string''"
| "typeof (Function f) = ''function''"
| "typeof (Object a) = ''object''"

text \<open>\<^verbatim>\<open>if (v)\<close>: the values that count as true.\<close>

fun truthy :: "val \<Rightarrow> bool" where
  "truthy Undefined = False"
| "truthy Null = False"
| "truthy (Boolean b) = b"
| "truthy (Number n) = (n \<noteq> 0)"
| "truthy (Text s) = (s \<noteq> [])"
| "truthy (Function f) = True"
| "truthy (Object a) = True"

text \<open>\<^verbatim>\<open>v != undefined\<close>: loose inequality, under which null equals undefined.\<close>

definition loose_neq_undefined :: "val \<Rightarrow> bool" where
  "loose_neq_undefined v = (v \<noteq> Undefined \<and> v \<noteq> Null)"

text \<open>\<^verbatim>\<open>o[k]\<close> on a heap object: a missing member reads as undefined.\<close>

definition member_of :: "jsobject \<Rightarrow> string \<Rightarrow> val" where
  "member_of ob k = (case map_of (enumerable ob @ hidden ob) k of Some v \<Rightarrow> v | None \<Rightarrow> Undefined)"

subsection \<open>Conversion to strings\<close>

definition digit_char :: "nat \<Rightarrow> char" where
  "digit_char d = ''0123456789'' ! d"

fun digits :: "nat \<Rightarrow> string" where
  "digits n = (if n < 10 then [digit_char n] else digits (n div 10) @ [digit_char (n mod 10)])"

definition number_string :: "int \<Rightarrow> string" where
  "number_string n = (if n < 0 then CHR ''-'' # digits (nat (- n)) else digits (nat n))"

text \<open>
  \<open>to_string\<close> is the conversion \<^verbatim>\<open>String(v)\<close>. On an object or a function it runs
  the value's own \<^verbatim>\<open>toString\<close>, which is code outside \<^verbatim>\<open>lib/index.js\<close>; its
  outcome is the parameter \<open>repr\<close>.
\<close>

fun to_string :: "(val \<Rightarrow> string) \<Rightarrow> val \<Rightarrow> string" where
  "to_string repr Undefined = ''undefined''"
| "to_string repr Null = ''null''"
| "to_string repr (Boolean b) = (if b then ''true'' else ''false'')"
| "to_string repr (Number n) = number_string n"
| "to_string repr (Text s) = s"
| "to_string repr (Function f) = repr (Function f)"
| "to_string repr (Object a) = repr (Object a)"

text \<open>
  \<^verbatim>\<open>Array.prototype.join\<close>: an element that is undefined or null contributes the
  empty string, any other element its string conversion; the separator stands between
  consecutive elements.
\<close>

definition stringify :: "(val \<Rightarrow> string) \<Rightarrow> val \<Rightarrow> string" where
  "stringify repr v = (if v = Undefined \<or> v = Null then [] else to_string repr v)"

fun join :: "(val \<Rightarrow> string) \<Rightarrow> string \<Rightarrow> val list \<Rightarrow> string" where
  "join repr sep [] = []"
| "join repr sep (x # xs) = foldl (\<lambda>r e. r @ sep @ stringify repr e) (stringify repr x) xs"

section \<open>Key generator\<close>

text \<open>
  \<^verbatim>\<open>ProxyCache.prototype._key = function (method, args) {
    return [method].concat(args).join(':'); }\<close>
  \<open>args\<close> is a true array (the slice of the call's arguments), so \<^verbatim>\<open>concat\<close> appends
  its elements one by one.
\<close>

definition pc_key :: "(val \<Rightarrow> string) \<Rightarrow> string \<Rightarrow> val list \<Rightarrow> string" where
  "pc_key repr method args = join repr '':'' ([Text method] @ args)"

text \<open>
  The key as the specification words it: the method name, then for every argument in
  order the separator and the stringified argument.
\<close>

definition key_spec :: "(val \<Rightarrow> string) \<Rightarrow> string \<Rightarrow> val list \<Rightarrow> string" where
  "key_spec repr method args = method @ concat (map (\<lambda>a. '':'' @ stringify repr a) args)"

section \<open>Copies of cached values\<close>

text \<open>
  Modelled from the spec: the copy function (the package \<^verbatim>\<open>clone\<close>) is not under
  \<^verbatim>\<open>src/\<close>. The specification calls its result a copy of the stored value; the
  only call site, \<^verbatim>\<open>clone(get.call(cache, key), true, 1)\<close> in \<^verbatim>\<open>_get\<close>, fixes the
  depth of the copy to 1. A value that is not an object is returned as it is. For an
  object a new object is allocated that has the members of the original; at depth 1 the
  members themselves are not copied, so a member that is an object is the same object
  in the original and in the copy.
\<close>

definition clone_depth1 :: "val \<Rightarrow> heap \<Rightarrow> val \<times> heap" where
  "clone_depth1 v h =
     (case v of
        Object a \<Rightarrow>
          if a < length h
          then (Object (length h),
                h @ [\<lparr>enumerable = enumerable (h ! a), hidden = hidden (h ! a)\<rparr>])
          else (v, h)
      | _ \<Rightarrow> (v, h))"

text \<open>What a holder of the value \<open>v\<close> sees when it looks at the object behind it.\<close>

definition deref :: "heap \<Rightarrow> val \<Rightarrow> jsobject option" where
  "deref h v = (case v of Object a \<Rightarrow> (if a < length h then Some (h ! a) else None) | _ \<Rightarrow> None)"

text \<open>A caller that holds \<open>Object a\<close> overwrites the members of that object.\<close>

definition mutate :: "addr \<Rightarrow> jsobject \<Rightarrow> heap \<Rightarrow> heap" where
  "mutate a ob h = h[a := ob]"

section \<open>Configuration\<close>

text \<open>
  \<^verbatim>\<open>this.options = defaults(options, { max: 10000, maxAge: ms('1m'), stale: false,
    peek: true, tombstone: true, stats: ProxyCache.stats })\<close>
  An option that the caller leaves undefined takes its default. The metrics sink
  \<open>stats\<close> is modelled by the log of the calls made on it (see \<open>metric\<close> below).
\<close>

record options =
  max_entries :: int
  maxAge :: int
  stale :: bool
  peek :: bool
  tombstone :: bool

record given_options =
  given_max :: "int option"
  given_maxAge :: "int option"
  given_stale :: "bool option"
  given_peek :: "bool option"
  given_tombstone :: "bool option"

definition or_default :: "'a option \<Rightarrow> 'a \<Rightarrow> 'a" where
  "or_default g d = (case g of None \<Rightarrow> d | Some x \<Rightarrow> x)"

definition defaults :: "given_options \<Rightarrow> options" where
  "defaults g =
     \<lparr> max_entries = or_default (given_max g) 10000,
       maxAge = or_default (given_maxAge g) 60000,
       stale = or_default (given_stale g) False,
       peek = or_default (given_peek g) True,
       tombstone = or_default (given_tombstone g) True \<rparr>"

section \<open>Cache store\<close>

text \<open>
  Modelled from the spec: the bounded container (the package \<^verbatim>\<open>lru-cache\<close>) is not
  under \<^verbatim>\<open>src/\<close>. Section 4.2 of the specification: a container keyed by string
  with a capacity and a maximal age per entry; \<open>get\<close> reads and refreshes recency,
  \<open>peek\<close> reads without refreshing; a read returns "absent" (undefined) when the key is
  missing or its entry is older than \<open>maxAge\<close>, and expiry happens on lookup; \<open>set\<close>
  always refreshes recency and evicts the least recently used entries over capacity.
  With \<open>stale\<close> the expired entry is served once more while it is removed. The entries
  are listed most recently used first.
\<close>

record entry =
  e_key :: string
  e_val :: val
  e_at :: int

type_synonym lru = "entry list"

definition expired :: "options \<Rightarrow> int \<Rightarrow> entry \<Rightarrow> bool" where
  "expired opts now e = (now - e_at e > maxAge opts)"

definition lru_find :: "string \<Rightarrow> lru \<Rightarrow> entry option" where
  "lru_find k c = find (\<lambda>e. e_key e = k) c"

definition lru_remove :: "string \<Rightarrow> lru \<Rightarrow> lru" where
  "lru_remove k c = filter (\<lambda>e. e_key e \<noteq> k) c"

definition lru_has :: "options \<Rightarrow> int \<Rightarrow> string \<Rightarrow> lru \<Rightarrow> bool" where
  "lru_has opts now k c =
     (case lru_find k c of None \<Rightarrow> False | Some e \<Rightarrow> \<not> expired opts now e)"

definition lru_read :: "bool \<Rightarrow> options \<Rightarrow> int \<Rightarrow> string \<Rightarrow> lru \<Rightarrow> val \<times> lru" where
  "lru_read refresh opts now k c =
     (case lru_find k c of
        None \<Rightarrow> (Undefined, c)
      | Some e \<Rightarrow>
          if expired opts now e
          then ((if stale opts then e_val e else Undefined), lru_remove k c)
          else (e_val e, if refresh then e # lru_remove k c else c))"

definition lru_get :: "options \<Rightarrow> int \<Rightarrow> string \<Rightarrow> lru \<Rightarrow> val \<times> lru" where
  "lru_get = lru_read True"

definition lru_peek :: "options \<Rightarrow> int \<Rightarrow> string \<Rightarrow> lru \<Rightarrow> val \<times> lru" where
  "lru_peek = lru_read False"

definition lru_set :: "options \<Rightarrow> int \<Rightarrow> string \<Rightarrow> val \<Rightarrow> lru \<Rightarrow> lru" where
  "lru_set opts now k v c =
     take (nat (max_entries opts)) (\<lparr>e_key = k, e_val = v, e_at = now\<rparr> # lru_remove k c)"

definition lru_length :: "lru \<Rightarrow> int" where
  "lru_length c = int (length c)"

section \<open>The state of a wrapped instance and of its environment\<close>

text \<open>
  A completion callback is code of the caller. The model identifies it by a number and
  gives it a reaction: the calls of wrapped methods that it makes, synchronously, when
  it is invoked with \<open>(err, result)\<close>; each such call names the method, the arguments
  and the callback it passes. A callback returns normally.
\<close>

datatype callback =
  Callback (cb_id: nat) (reaction: "val \<Rightarrow> val \<Rightarrow> (string \<times> val list \<times> callback) list")

text \<open>The calls made on the metrics sink: \<open>incr\<close>, \<open>gauge\<close> and \<open>timer\<close> with name, number and tags.\<close>

datatype metric =
    Incr string int "string list"
  | Gauge string int "string list"
  | Timer string int "string list"

text \<open>
  An invocation of an underlying method that has not called back yet: the method, the
  arguments, and the variables \<open>key\<close> and \<open>start\<close> that its completion function
  (lines 121 to 127) closes over.
\<close>

record upcall =
  u_method :: string
  u_args :: "val list"
  u_key :: string
  u_start :: int

text \<open>
  \<open>cache\<close> is \<^verbatim>\<open>self.cache\<close>, shared by all wrapped methods. \<open>inFlight\<close> is the
  variable of that name in \<^verbatim>\<open>_wrap\<close>, one object per wrapped method, read here as a
  dictionary from keys to arrays of callbacks: \<open>None\<close> stands for a missing or null
  entry (a key that names a member every object inherits, such as \<open>toString\<close>, is
  outside the model). \<open>ticks\<close> are the functions handed to \<^verbatim>\<open>tick\<close> (\<^verbatim>\<open>setImmediate\<close>) that
  have not run yet, first in first out. \<open>pending\<close> are the invocations of underlying
  methods that have not completed, \<open>upstream\<close> is the log of all invocations made,
  \<open>delivered\<close> the log of all callback invocations \<open>(callback, err, result)\<close> and
  \<open>stats\<close> the log of the metrics sink.
\<close>

record state =
  cache :: lru
  inFlight :: "string \<Rightarrow> string \<Rightarrow> callback list option"
  heap :: heap
  ticks :: "(callback \<times> val) list"
  pending :: "upcall list"
  upstream :: "(string \<times> val list) list"
  delivered :: "(nat \<times> val \<times> val) list"
  stats :: "metric list"

definition emit :: "metric \<Rightarrow> state \<Rightarrow> state" where
  "emit m s = s\<lparr>stats := stats s @ [m]\<rparr>"

text \<open>\<^verbatim>\<open>ProxyCache.prototype._has = function (key) { return this.cache.has(key); }\<close>\<close>

definition pc_has :: "options \<Rightarrow> int \<Rightarrow> string \<Rightarrow> state \<Rightarrow> bool" where
  "pc_has opts now k s = lru_has opts now k (cache s)"

text \<open>
  \<^verbatim>\<open>ProxyCache.prototype._get = function (key) {
    var cache = this.cache;
    var get = this.options.peek ? cache.peek : cache.get;
    return clone(get.call(cache, key), true, 1); }\<close>
\<close>

definition pc_get :: "options \<Rightarrow> int \<Rightarrow> string \<Rightarrow> state \<Rightarrow> val \<times> state" where
  "pc_get opts now k s =
     (let (v, c) = (if peek opts then lru_peek else lru_get) opts now k (cache s);
          (v', h) = clone_depth1 v (heap s)
      in (v', s\<lparr>cache := c, heap := h\<rparr>))"

section \<open>The wrapped method\<close>

text \<open>
  The function that \<^verbatim>\<open>_wrap\<close> returns (lines 95 to 149), called at time \<open>now\<close> with
  the arguments \<open>args\<close> followed by \<open>callback\<close>. On a hit the delivery is handed to
  \<^verbatim>\<open>tick\<close>; a call for a key with a truthy \<^verbatim>\<open>inFlight[key]\<close> pushes its callback and
  returns; otherwise the call registers \<^verbatim>\<open>[callback]\<close> and invokes the underlying method
  with the arguments and the completion function.
\<close>

definition wrapped ::
  "options \<Rightarrow> (val \<Rightarrow> string) \<Rightarrow> string \<Rightarrow> val list \<Rightarrow> callback \<Rightarrow> int \<Rightarrow> state \<Rightarrow> state" where
  "wrapped opts repr method args callback now s =
     (let key = pc_key repr method args;
          tags = [''method:'' @ method];
          start = now;
          s1 = emit (Incr ''proxy-cache.calls'' 1 tags) s;
          s2 = emit (Gauge ''proxy-cache.size'' (lru_length (cache s1)) tags) s1
      in if pc_has opts now key s2 then
           (let s3 = emit (Incr ''proxy-cache.hit'' 1 tags) s2;
                (cached, s4) = pc_get opts now key s3
            in s4\<lparr>ticks := ticks s4 @ [(callback, cached)]\<rparr>)
         else
           (case inFlight s2 method key of
              Some fns \<Rightarrow>
                s2\<lparr>inFlight := (inFlight s2)(method := (inFlight s2 method)(key \<mapsto> fns @ [callback]))\<rparr>
            | None \<Rightarrow>
                (let s3 = s2\<lparr>inFlight := (inFlight s2)(method := (inFlight s2 method)(key \<mapsto> [callback]))\<rparr>;
                     s4 = emit (Incr ''proxy-cache.miss'' 1 tags) s3
                 in s4\<lparr>upstream := upstream s4 @ [(method, args)],
                        pending := pending s4 @
                          [\<lparr>u_method = method, u_args = args, u_key = key, u_start = start\<rparr>]\<rparr>)))"

text \<open>
  Invoking a caller's callback with \<open>(err, result)\<close>: the invocation is logged, then the
  callback's reaction runs, calling wrapped methods within the same stack frame.
\<close>

definition invoke ::
  "options \<Rightarrow> (val \<Rightarrow> string) \<Rightarrow> int \<Rightarrow> val \<Rightarrow> val \<Rightarrow> state \<Rightarrow> callback \<Rightarrow> state" where
  "invoke opts repr now err result s fn =
     foldl (\<lambda>s' (m, args, cb). wrapped opts repr m args cb now s')
       (s\<lparr>delivered := delivered s @ [(cb_id fn, err, result)]\<rparr>)
       (reaction fn err result)"

datatype error = TypeError string

text \<open>
  \<^verbatim>\<open>function done(err, result){
    var fns = inFlight[key];
    if (err) { fns.forEach(function(fn){ fn(err); }); }
    else { fns.forEach(function(fn){ fn(null, result); }); }
    inFlight[key] = null; }\<close>
  \<^verbatim>\<open>forEach\<close> visits the elements that the array holds when the loop starts: a callback
  pushed onto \<open>fns\<close> while the loop runs is not visited. With a null \<^verbatim>\<open>inFlight[key]\<close>
  the call of \<^verbatim>\<open>forEach\<close> throws.
\<close>

definition done_cb ::
  "options \<Rightarrow> (val \<Rightarrow> string) \<Rightarrow> string \<Rightarrow> string \<Rightarrow> int \<Rightarrow> val \<Rightarrow> val \<Rightarrow> state \<Rightarrow> error + state" where
  "done_cb opts repr method key now err result s =
     (case inFlight s method key of
        None \<Rightarrow> Inl (TypeError ''Cannot read property forEach of null'')
      | Some fns \<Rightarrow>
          (let s1 = (if truthy err
                     then foldl (invoke opts repr now err Undefined) s fns
                     else foldl (invoke opts repr now Null result) s fns)
           in Inr (s1\<lparr>inFlight := (inFlight s1)(method := (inFlight s1 method)(key := None))\<rparr>)))"

text \<open>
  The completion function pushed onto the arguments of the underlying method:
  \<^verbatim>\<open>function (err, result) {
    self.stats.timer('proxy-cache.duration', new Date - start, tags);
    if (err) return done(err);
    var present = result != undefined;
    if (present || tombstone) self.cache.set(key, result);
    done(null, result); }\<close>
  called at time \<open>now\<close> by the invocation \<open>u\<close>.
\<close>

definition completion ::
  "options \<Rightarrow> (val \<Rightarrow> string) \<Rightarrow> upcall \<Rightarrow> int \<Rightarrow> val \<Rightarrow> val \<Rightarrow> state \<Rightarrow> error + state" where
  "completion opts repr u now err result s =
     (let tags = [''method:'' @ u_method u];
          s1 = emit (Timer ''proxy-cache.duration'' (now - u_start u) tags) s
      in if truthy err then done_cb opts repr (u_method u) (u_key u) now err Undefined s1
         else
           (let present = loose_neq_undefined result;
                s2 = (if present \<or> tombstone opts
                      then s1\<lparr>cache := lru_set opts now (u_key u) result (cache s1)\<rparr>
                      else s1)
            in done_cb opts repr (u_method u) (u_key u) now Null result s2))"

text \<open>The scheduler runs the oldest function handed to \<^verbatim>\<open>tick\<close>: \<^verbatim>\<open>callback(null, cached)\<close>.\<close>

definition run_tick :: "options \<Rightarrow> (val \<Rightarrow> string) \<Rightarrow> int \<Rightarrow> state \<Rightarrow> state" where
  "run_tick opts repr now s =
     (case ticks s of
        [] \<Rightarrow> s
      | (fn, cached) # rest \<Rightarrow> invoke opts repr now Null cached (s\<lparr>ticks := rest\<rparr>) fn)"

section \<open>The event loop\<close>

text \<open>
  What happens to a wrapped instance, one event at a time on the single event loop: a
  caller calls a wrapped method at the time \<open>now\<close>; the \<open>i\<close>-th pending invocation of an
  underlying method calls its completion function with \<open>(err, result)\<close>; the scheduler
  runs a tick. An underlying method is an asynchronous operation: it calls its completion
  function once, after the call that invoked it has returned, and does not throw. A
  completion event for an invocation that is not pending changes nothing. An exception
  ends the run.
\<close>

datatype event =
    Call string "val list" callback int
  | Complete nat val val int
  | Tick int

fun step :: "options \<Rightarrow> (val \<Rightarrow> string) \<Rightarrow> event \<Rightarrow> state \<Rightarrow> error + state" where
  "step opts repr (Call method args cb now) s = Inr (wrapped opts repr method args cb now s)"
| "step opts repr (Complete i err result now) s =
     (if i < length (pending s)
      then completion opts repr (pending s ! i) now err result
             (s\<lparr>pending := take i (pending s) @ drop (Suc i) (pending s)\<rparr>)
      else Inr s)"
| "step opts repr (Tick now) s = Inr (run_tick opts repr now s)"

fun run :: "options \<Rightarrow> (val \<Rightarrow> string) \<Rightarrow> event list \<Rightarrow> state \<Rightarrow> error + state" where
  "run opts repr [] s = Inr s"
| "run opts repr (e # es) s =
     (case step opts repr e s of Inl x \<Rightarrow> Inl x | Inr s' \<Rightarrow> run opts repr es s')"

text \<open>A wrapped instance right after its construction, in a world with the heap \<open>h\<close>.\<close>

definition init :: "heap \<Rightarrow> state" where
  "init h = \<lparr> cache = [], inFlight = (\<lambda>m k. None), heap = h, ticks = [], pending = [],
              upstream = [], delivered = [], stats = [] \<rparr>"

section \<open>Proxy builder\<close>

text \<open>
  What the wrapped instance holds under a name: a member of the target by direct
  reference, a function that forwards to the target's member of that name, or the
  caching function of the previous sections.
\<close>

datatype member = Direct val | Forward string | Cached string

text \<open>The argument \<open>methods\<close>: \<^verbatim>\<open>methods instanceof Array\<close> holds for \<open>ArrayOf names\<close> only.\<close>

datatype methods_arg = NotAnArray val | ArrayOf "string list"

record wrapper =
  w_options :: options
  parent :: val
  w_cache :: lru
  members :: "string \<Rightarrow> member option"

text \<open>
  \<^verbatim>\<open>instance[key]\<close>: reading a member of null or undefined throws. The constructor lets
  only null and objects pass, so the members of wrapped primitives are not modelled.
\<close>

definition get_member :: "heap \<Rightarrow> val \<Rightarrow> string \<Rightarrow> error + val" where
  "get_member h v k =
     (case v of
        Object a \<Rightarrow> Inr (if a < length h then member_of (h ! a) k else Undefined)
      | Null \<Rightarrow> Inl (TypeError ''Cannot read property of null'')
      | Undefined \<Rightarrow> Inl (TypeError ''Cannot read property of undefined'')
      | _ \<Rightarrow> Inr Undefined)"

text \<open>The names that \<^verbatim>\<open>for (var prop in instance)\<close> visits; none for null.\<close>

definition for_in :: "heap \<Rightarrow> val \<Rightarrow> string list" where
  "for_in h v =
     (case v of
        Object a \<Rightarrow> (if a < length h then map fst (enumerable (h ! a)) else [])
      | _ \<Rightarrow> [])"

text \<open>
  \<^verbatim>\<open>ProxyCache.prototype._proxy = function (instance, key) {
    if (typeof instance[key] !== 'function') return instance[key];
    return function () { return instance[key].apply(instance, arguments); }; }\<close>
\<close>

definition pc_proxy :: "heap \<Rightarrow> val \<Rightarrow> string \<Rightarrow> error + member" where
  "pc_proxy h instance k =
     (case get_member h instance k of
        Inl e \<Rightarrow> Inl e
      | Inr v \<Rightarrow> Inr (if typeof v \<noteq> ''function'' then Direct v else Forward k))"


text \<open>
  The first lines of \<^verbatim>\<open>_wrap\<close>:
  \<^verbatim>\<open>if (typeof instance[method] !== 'function') throw new TypeError('Can only cache methods!');\<close>
  and then the function of the previous sections is returned.
\<close>

definition pc_wrap :: "heap \<Rightarrow> val \<Rightarrow> string \<Rightarrow> error + member" where
  "pc_wrap h instance method =
     (case get_member h instance method of
        Inl e \<Rightarrow> Inl e
      | Inr v \<Rightarrow>
          if typeof v \<noteq> ''function'' then Inl (TypeError ''Can only cache methods!'')
          else Inr (Cached method))"

text \<open>\<^verbatim>\<open>for (var prop in instance) this[prop] = this._proxy(instance, prop);\<close>\<close>

fun proxy_all :: "heap \<Rightarrow> val \<Rightarrow> string list \<Rightarrow> wrapper \<Rightarrow> error + wrapper" where
  "proxy_all h instance [] w = Inr w"
| "proxy_all h instance (prop # props) w =
     (case pc_proxy h instance prop of
        Inl e \<Rightarrow> Inl e
      | Inr m \<Rightarrow> proxy_all h instance props (w\<lparr>members := (members w)(prop \<mapsto> m)\<rparr>))"

text \<open>
  \<^verbatim>\<open>for (var i = 0; i < methods.length; i++) {
    var method = methods[i];
    this[method] = this._wrap(instance, method); }\<close>
\<close>

fun wrap_all :: "heap \<Rightarrow> val \<Rightarrow> string list \<Rightarrow> wrapper \<Rightarrow> error + wrapper" where
  "wrap_all h instance [] w = Inr w"
| "wrap_all h instance (method # methods) w =
     (case pc_wrap h instance method of
        Inl e \<Rightarrow> Inl e
      | Inr m \<Rightarrow> wrap_all h instance methods (w\<lparr>members := (members w)(method \<mapsto> m)\<rparr>))"

text \<open>
  \<^verbatim>\<open>function ProxyCache (instance, methods, options) {
    if (typeof instance !== 'object') throw new TypeError('Instance must be an object.');
    if (!(methods instanceof Array)) throw new TypeError('Methods must be an array.');
    this.options = defaults(options, ...);
    this.stats = this.options.stats;
    this.parent = instance;
    this.cache = new LRU(this.options);
    for (var prop in instance) this[prop] = this._proxy(instance, prop);
    for (var i = 0; i < methods.length; i++) { ... } }\<close>
  The wrapper's own fields \<open>options\<close>, \<open>stats\<close>, \<open>parent\<close> and \<open>cache\<close> and its
  prototype's methods are kept apart from the members copied from the target: a target
  with a member of one of these names is outside the model.
\<close>

definition ProxyCache :: "heap \<Rightarrow> val \<Rightarrow> methods_arg \<Rightarrow> given_options \<Rightarrow> error + wrapper" where
  "ProxyCache h instance methods opts =
     (if typeof instance \<noteq> ''object'' then Inl (TypeError ''Instance must be an object.'')
      else case methods of
        NotAnArray v \<Rightarrow> Inl (TypeError ''Methods must be an array.'')
      | ArrayOf names \<Rightarrow>
          (case proxy_all h instance (for_in h instance)
                  \<lparr> w_options = defaults opts, parent = instance, w_cache = [],
                    members = (\<lambda>k. None) \<rparr> of
             Inl e \<Rightarrow> Inl e
           | Inr w \<Rightarrow> wrap_all h instance names w))"

section \<open>Notions used in the statements\<close>

text \<open>A pending invocation is identified by its wrapped method and its key.\<close>

definition upkey :: "upcall \<Rightarrow> string \<times> string" where
  "upkey u = (u_method u, u_key u)"

text \<open>
  The registry covers the pending invocations: no two of them are for the same method
  and key, and each of them has a registry entry.
\<close>

definition registered :: "state \<Rightarrow> bool" where
  "registered s =
     (distinct (map upkey (pending s)) \<and>
      (\<forall>u \<in> set (pending s). inFlight s (u_method u) (u_key u) \<noteq> None))"

text \<open>
  The same while \<^verbatim>\<open>done\<close> runs for the method \<open>m\<close> and the key \<open>k\<close>: the invocation that
  completes is not pending any more, its registry entry is still there.
\<close>

definition fanning :: "string \<Rightarrow> string \<Rightarrow> state \<Rightarrow> bool" where
  "fanning m k s = (registered s \<and> (m, k) \<notin> set (map upkey (pending s)) \<and> inFlight s m k \<noteq> None)"


text \<open>What \<^verbatim>\<open>done\<close> hands to each callback: \<^verbatim>\<open>fn(err)\<close> or \<^verbatim>\<open>fn(null, result)\<close>.\<close>

definition outcome :: "val \<Rightarrow> val \<Rightarrow> val \<times> val" where
  "outcome err result = (if truthy err then (err, Undefined) else (Null, result))"

text \<open>The cache of \<open>s\<close> holds, under every key, the entry that \<open>c\<close> holds.\<close>

definition same_entries :: "lru \<Rightarrow> state \<Rightarrow> bool" where
  "same_entries c s = (\<forall>k. lru_find k (cache s) = lru_find k c)"

text \<open>Concrete inputs: the default options, callbacks that make no call, a string conversion.\<close>

definition opts0 :: options where
  "opts0 = defaults \<lparr>given_max = None, given_maxAge = None, given_stale = None, given_peek = None, given_tombstone = None\<rparr>"

definition quiet :: "nat \<Rightarrow> callback" where
  "quiet i = Callback i (\<lambda>e r. [])"

definition plain :: "val \<Rightarrow> string" where
  "plain v = ''[object Object]''"

text \<open>No argument of the list has the separator in its string form.\<close>

definition no_separator :: "(val \<Rightarrow> string) \<Rightarrow> val list \<Rightarrow> bool" where
  "no_separator repr args = (\<forall>a \<in> set args. CHR '':'' \<notin> set (stringify repr a))"




text \<open>Concrete inputs: no option given; a target with a method, a datum and a hidden method.\<close>

definition no_options :: given_options where
  "no_options = \<lparr>given_max = None, given_maxAge = None, given_stale = None,
                  given_peek = None, given_tombstone = None\<rparr>"


text \<open>Reading a field of the state in which a run ends; \<open>None\<close> when the run threw.\<close>

definition observe :: "(state \<Rightarrow> 'a) \<Rightarrow> error + state \<Rightarrow> 'a option" where
  "observe f r = (case r of Inr s \<Rightarrow> Some (f s) | Inl e \<Rightarrow> None)"

text \<open>A caller that holds \<open>Object a\<close> overwrites that object between two runs.\<close>

definition caller_mutates :: "addr \<Rightarrow> jsobject \<Rightarrow> error + state \<Rightarrow> error + state" where
  "caller_mutates a ob r =
     (case r of Inr s \<Rightarrow> Inr (s\<lparr>heap := mutate a ob (heap s)\<rparr>) | Inl e \<Rightarrow> Inl e)"

definition and_then :: "options \<Rightarrow> (val \<Rightarrow> string) \<Rightarrow> event list \<Rightarrow> error + state \<Rightarrow> error + state" where
  "and_then opts repr evs r = (case r of Inr s \<Rightarrow> run opts repr evs s | Inl e \<Rightarrow> Inl e)"

text \<open>
  Concrete inputs: a user object with a nested address object; two callers that wait for
  the same invocation, which completes with the user object; a third caller that is
  served from the cache.
\<close>

definition user_heap :: heap where
  "user_heap = [\<lparr>enumerable = [(''name'', Text ''ann''), (''address'', Object 1)], hidden = []\<rparr>,
                \<lparr>enumerable = [(''city'', Text ''Oslo'')], hidden = []\<rparr>]"

definition renamed :: jsobject where
  "renamed = \<lparr>enumerable = [(''name'', Text ''eve''), (''address'', Object 1)], hidden = []\<rparr>"

definition moved :: jsobject where
  "moved = \<lparr>enumerable = [(''city'', Text ''Rome'')], hidden = []\<rparr>"

definition two_waiters :: "event list" where
  "two_waiters = [Call ''fetch'' [Number 1] (quiet 1) 0, Call ''fetch'' [Number 1] (quiet 2) 1,
                  Complete 0 Null (Object 0) 5]"

definition later_hit :: "event list" where
  "later_hit = [Call ''fetch'' [Number 1] (quiet 3) 6, Tick 7]"

definition cached_user :: state where
  "cached_user = (init user_heap)\<lparr>cache := [\<lparr>e_key = ''fetch:1'', e_val = Object 0, e_at = 5\<rparr>]\<rparr>"

text \<open>
  Concrete inputs: a callback that, when it is handed an error, calls the wrapped method
  again at once with the same argument; a callback that calls again when it is handed
  an empty result.
\<close>

definition retry_on_error :: callback where
  "retry_on_error = Callback 1 (\<lambda>err result. if truthy err then [(''fetch'', [Number 1], quiet 2)] else [])"

definition failing_fetch :: "event list" where
  "failing_fetch = [Call ''fetch'' [Number 1] retry_on_error 0, Complete 0 (Text ''boom'') Undefined 5]"

definition repoll_on_empty :: callback where
  "repoll_on_empty =
     Callback 1 (\<lambda>err result. if loose_neq_undefined result then []
                               else [(''fetch'', [Number 1], quiet 2)])"

definition empty_fetch :: "val \<Rightarrow> event list" where
  "empty_fetch result = [Call ''fetch'' [Number 1] repoll_on_empty 0, Complete 0 Null result 5]"

definition no_tombstone :: options where
  "no_tombstone = opts0\<lparr>tombstone := False\<rparr>"

section \<open>Properties of the key generator\<close>

lemma foldl_join_acc:
  "foldl (\<lambda>r e. r @ sep @ stringify repr e) acc xs
     = acc @ concat (map (\<lambda>a. sep @ stringify repr a) xs)"
  by (induction xs arbitrary: acc) simp_all

lemma stringify_Text: "stringify repr (Text s) = s"
  by (simp add: stringify_def)

lemma pc_key_unfold: "pc_key repr method args = key_spec repr method args"
  using foldl_join_acc [of "'':''" repr "method" args]
  by (simp add: pc_key_def key_spec_def stringify_Text)

lemma takeWhile_segment:
  assumes "c \<notin> set x" and "r = [] \<or> (\<exists>r'. r = c # r')"
  shows "takeWhile (\<lambda>z. z \<noteq> c) (x @ r) = x"
  using assms by (induction x) auto

lemma segments_head:
  "concat (map (\<lambda>x. c # x) xs) = [] \<or> (\<exists>r'. concat (map (\<lambda>x. c # x) xs) = c # r')"
  by (cases xs) simp_all

lemma segments_inj:
  assumes "\<forall>x \<in> set xs. c \<notin> set x" and "\<forall>y \<in> set ys. c \<notin> set y"
    and "concat (map (\<lambda>x. c # x) xs) = concat (map (\<lambda>x. c # x) ys)"
  shows "xs = ys"
  using assms
proof (induction xs arbitrary: ys)
  case Nil
  then show ?case by (cases ys) simp_all
next
  case (Cons x xs)
  then obtain y ys' where ys: "ys = y # ys'" by (cases ys) auto
  let ?r = "concat (map (\<lambda>x. c # x) xs)" and ?r' = "concat (map (\<lambda>x. c # x) ys')"
  have eq: "x @ ?r = y @ ?r'" using Cons.prems(3) ys by simp
  have cx: "c \<notin> set x" and cy: "c \<notin> set y" using Cons.prems ys by simp_all
  have "x = takeWhile (\<lambda>z. z \<noteq> c) (x @ ?r)"
    using takeWhile_segment [OF cx segments_head [of c xs]] by simp
  also have "\<dots> = takeWhile (\<lambda>z. z \<noteq> c) (y @ ?r')" using eq by simp
  also have "\<dots> = y" using takeWhile_segment [OF cy segments_head [of c ys']] .
  finally have xy: "x = y" .
  then have "?r = ?r'" using eq by simp
  then have "xs = ys'" using Cons.IH [of ys'] Cons.prems ys by simp
  then show ?case using xy ys by simp
qed

lemma key_spec_segments:
  "key_spec repr m args = m @ concat (map (\<lambda>x. CHR '':'' # x) (map (stringify repr) args))"
  by (simp add: key_spec_def comp_def)

text \<open>
  C6: the key is the method name followed, for every argument in order, by the separator
  \<open>:\<close> and the argument's string form (the empty string for undefined and null). It is a
  function of the method name and of the string forms of the arguments, so argument
  lists with the same string forms collide: the number 1 and the text "1", or one text
  that holds the separator and the two texts around it. It is sensitive to order: among
  arguments whose string forms do not hold the separator, equal keys mean the same
  string forms in the same order, and swapping two different arguments changes the key.
\<close>

theorem key_is_join:
  "pc_key repr m args = key_spec repr m args
   \<and> (map (stringify repr) args = map (stringify repr) args' \<longrightarrow> pc_key repr m args = pc_key repr m args')
   \<and> (no_separator repr args \<and> no_separator repr args' \<and> pc_key repr m args = pc_key repr m args'
        \<longrightarrow> map (stringify repr) args = map (stringify repr) args')
   \<and> pc_key repr m [Text ''a'', Text ''b''] \<noteq> pc_key repr m [Text ''b'', Text ''a'']
   \<and> pc_key repr m [Number 1] = pc_key repr m [Text ''1'']
   \<and> pc_key repr m [Text ''a:b''] = pc_key repr m [Text ''a'', Text ''b'']"
proof -
  have same: "pc_key repr m args = pc_key repr m args'"
    if "map (stringify repr) args = map (stringify repr) args'"
    using that by (simp add: pc_key_unfold key_spec_segments)
  have inj: "map (stringify repr) args = map (stringify repr) args'"
    if "no_separator repr args" "no_separator repr args'" "pc_key repr m args = pc_key repr m args'"
  proof (rule segments_inj [of _ "CHR '':''"])
    show "\<forall>x \<in> set (map (stringify repr) args). CHR '':'' \<notin> set x"
      using that(1) by (simp add: no_separator_def)
    show "\<forall>y \<in> set (map (stringify repr) args'). CHR '':'' \<notin> set y"
      using that(2) by (simp add: no_separator_def)
    show "concat (map (\<lambda>x. CHR '':'' # x) (map (stringify repr) args))
        = concat (map (\<lambda>x. CHR '':'' # x) (map (stringify repr) args'))"
      using that(3) by (simp add: pc_key_unfold key_spec_segments)
  qed
  have ex: "pc_key repr m [Text ''a'', Text ''b''] \<noteq> pc_key repr m [Text ''b'', Text ''a'']"
    "pc_key repr m [Number 1] = pc_key repr m [Text ''1'']"
    "pc_key repr m [Text ''a:b''] = pc_key repr m [Text ''a'', Text ''b'']"
    by (simp_all add: pc_key_unfold key_spec_def stringify_def number_string_def digit_char_def)
  show ?thesis using same inj ex pc_key_unfold by blast
qed

theorem key_is_join_witness:
  "pc_key plain ''get'' [Number 12, Null, Boolean True] = ''get:12::true''
   \<and> pc_key plain ''get'' [Number 12, Null, Boolean True] = pc_key plain ''get'' [Text ''12'', Undefined, Text ''true'']
   \<and> map (stringify plain) [Number 12, Null] = map (stringify plain) [Text ''12'', Text '''']"
proof -
  have h: "map (stringify plain) [Number 12, Null, Boolean True]
      = map (stringify plain) [Text ''12'', Undefined, Text ''true'']"
    by (simp add: stringify_def number_string_def digit_char_def)
  have n: "no_separator plain [Number 12, Null]" "no_separator plain [Text ''12'', Text '''']"
    by (simp_all add: no_separator_def stringify_def number_string_def digit_char_def)
  have k: "pc_key plain ''get'' [Number 12, Null] = pc_key plain ''get'' [Text ''12'', Text '''']"
    by (simp add: pc_key_unfold key_spec_def stringify_def number_string_def digit_char_def)
  have a: "pc_key plain ''get'' [Number 12, Null, Boolean True] = key_spec plain ''get'' [Number 12, Null, Boolean True]"
    and b: "pc_key plain ''get'' [Number 12, Null, Boolean True] = pc_key plain ''get'' [Text ''12'', Undefined, Text ''true'']"
    and c: "map (stringify plain) [Number 12, Null] = map (stringify plain) [Text ''12'', Text '''']"
    using key_is_join [of plain "''get''" "[Number 12, Null, Boolean True]" "[Text ''12'', Undefined, Text ''true'']"] h
      key_is_join [of plain "''get''" "[Number 12, Null]" "[Text ''12'', Text '''']"] n k
    by blast+
  have "key_spec plain ''get'' [Number 12, Null, Boolean True] = ''get:12::true''"
    by (simp add: key_spec_def stringify_def number_string_def digit_char_def)
  then show ?thesis using a b c by simp
qed

section \<open>The in-flight coordinator\<close>

lemma wrapped_hit:
  assumes "pc_has opts now (pc_key repr method args) s"
  shows "wrapped opts repr method args cb now s =
     (let tags = [''method:'' @ method];
          s3 = emit (Incr ''proxy-cache.hit'' 1 tags)
                 (emit (Gauge ''proxy-cache.size'' (lru_length (cache s)) tags)
                   (emit (Incr ''proxy-cache.calls'' 1 tags) s));
          r = pc_get opts now (pc_key repr method args) s3
      in (snd r)\<lparr>ticks := ticks (snd r) @ [(cb, fst r)]\<rparr>)"
  using assms by (simp add: wrapped_def Let_def emit_def pc_has_def split: prod.splits)

lemma wrapped_join:
  assumes "\<not> pc_has opts now (pc_key repr method args) s"
    and "inFlight s method (pc_key repr method args) = Some fns"
  shows "wrapped opts repr method args cb now s =
     s\<lparr>stats := stats s @ [Incr ''proxy-cache.calls'' 1 [''method:'' @ method],
                            Gauge ''proxy-cache.size'' (lru_length (cache s)) [''method:'' @ method]],
       inFlight := (inFlight s)(method := (inFlight s method)(pc_key repr method args \<mapsto> fns @ [cb]))\<rparr>"
  using assms by (simp add: wrapped_def Let_def emit_def pc_has_def)

lemma wrapped_miss:
  assumes "\<not> pc_has opts now (pc_key repr method args) s"
    and "inFlight s method (pc_key repr method args) = None"
  shows "wrapped opts repr method args cb now s =
     s\<lparr>stats := stats s @ [Incr ''proxy-cache.calls'' 1 [''method:'' @ method],
                            Gauge ''proxy-cache.size'' (lru_length (cache s)) [''method:'' @ method],
                            Incr ''proxy-cache.miss'' 1 [''method:'' @ method]],
       inFlight := (inFlight s)(method := (inFlight s method)(pc_key repr method args \<mapsto> [cb])),
       upstream := upstream s @ [(method, args)],
       pending := pending s @ [\<lparr>u_method = method, u_args = args,
                                 u_key = pc_key repr method args, u_start = now\<rparr>]\<rparr>"
  using assms by (simp add: wrapped_def Let_def emit_def pc_has_def)

lemma pc_get_fields:
  "delivered (snd (pc_get opts now k s)) = delivered s"
  "inFlight (snd (pc_get opts now k s)) = inFlight s"
  "pending (snd (pc_get opts now k s)) = pending s"
  "upstream (snd (pc_get opts now k s)) = upstream s"
  "stats (snd (pc_get opts now k s)) = stats s"
  "ticks (snd (pc_get opts now k s)) = ticks s"
  by (simp_all add: pc_get_def Let_def split: prod.splits)

lemma wrapped_delivered: "delivered (wrapped opts repr method args cb now s) = delivered s"
proof (cases "pc_has opts now (pc_key repr method args) s")
  case True
  then show ?thesis by (simp add: wrapped_hit Let_def pc_get_fields emit_def)
next
  case False
  then show ?thesis
    by (cases "inFlight s method (pc_key repr method args)") (simp_all add: wrapped_miss wrapped_join)
qed

lemma wrapped_inFlight_mono:
  "inFlight s m k \<noteq> None \<Longrightarrow> inFlight (wrapped opts repr method args cb now s) m k \<noteq> None"
proof (cases "pc_has opts now (pc_key repr method args) s")
  case True
  then show "inFlight s m k \<noteq> None \<Longrightarrow> ?thesis" by (simp add: wrapped_hit Let_def pc_get_fields emit_def)
next
  case False
  then show "inFlight s m k \<noteq> None \<Longrightarrow> ?thesis"
    by (cases "inFlight s method (pc_key repr method args)") (auto simp add: wrapped_miss wrapped_join)
qed

lemma wrapped_pending:
  "pending (wrapped opts repr method args cb now s) =
     (if \<not> pc_has opts now (pc_key repr method args) s \<and> inFlight s method (pc_key repr method args) = None
      then pending s @ [\<lparr>u_method = method, u_args = args,
                          u_key = pc_key repr method args, u_start = now\<rparr>]
      else pending s)"
proof (cases "pc_has opts now (pc_key repr method args) s")
  case True
  then show ?thesis by (simp add: wrapped_hit Let_def pc_get_fields emit_def)
next
  case False
  then show ?thesis
    by (cases "inFlight s method (pc_key repr method args)") (auto simp add: wrapped_miss wrapped_join)
qed

lemma wrapped_registered:
  assumes "registered s"
  shows "registered (wrapped opts repr method args cb now s)"
proof -
  let ?k = "pc_key repr method args"
  have mono: "\<forall>u \<in> set (pending s). inFlight (wrapped opts repr method args cb now s) (u_method u) (u_key u) \<noteq> None"
    using assms wrapped_inFlight_mono by (auto simp: registered_def)
  show ?thesis
  proof (cases "\<not> pc_has opts now ?k s \<and> inFlight s method ?k = None")
    case True
    then have new: "(method, ?k) \<notin> set (map upkey (pending s))"
      using assms by (auto simp: registered_def upkey_def)
    have own: "inFlight (wrapped opts repr method args cb now s) method ?k \<noteq> None"
      using True by (simp add: wrapped_miss)
    show ?thesis
      using True assms mono new own
      by (auto simp: registered_def wrapped_pending upkey_def)
  next
    case False
    then show ?thesis
      using assms mono by (auto simp: registered_def wrapped_pending)
  qed
qed

lemma wrapped_fanning:
  assumes "fanning m k s"
  shows "fanning m k (wrapped opts repr method args cb now s)"
proof -
  have "inFlight s m k \<noteq> None" using assms by (simp add: fanning_def)
  then have "(m, k) \<noteq> (method, pc_key repr method args) \<or>
      \<not> (\<not> pc_has opts now (pc_key repr method args) s \<and> inFlight s method (pc_key repr method args) = None)"
    by auto
  then have "(m, k) \<notin> set (map upkey (pending (wrapped opts repr method args cb now s)))"
    using assms by (auto simp: fanning_def wrapped_pending upkey_def)
  then show ?thesis
    using assms wrapped_registered wrapped_inFlight_mono by (simp add: fanning_def)
qed

lemma foldl_preserves:
  assumes "\<And>s x. P s \<Longrightarrow> P (f s x)" and "P s"
  shows "P (foldl f s xs)"
  using assms(2) by (induction xs arbitrary: s) (simp_all add: assms(1))

lemma invoke_preserves:
  assumes w: "\<And>s m a c. P s \<Longrightarrow> P (wrapped opts repr m a c now s)"
    and d: "\<And>s x. P s \<Longrightarrow> P (s\<lparr>delivered := x\<rparr>)"
    and "P s"
  shows "P (invoke opts repr now err result s fn)"
  unfolding invoke_def
  by (rule foldl_preserves) (auto simp: w d assms(3))

lemma fanout_preserves:
  assumes w: "\<And>s m a c. P s \<Longrightarrow> P (wrapped opts repr m a c now s)"
    and d: "\<And>s x. P s \<Longrightarrow> P (s\<lparr>delivered := x\<rparr>)"
    and "P s"
  shows "P (foldl (invoke opts repr now err result) s fns)"
  by (rule foldl_preserves) (auto intro: invoke_preserves w d assms(3))

lemma invoke_delivered:
  "delivered (invoke opts repr now err result s fn) = delivered s @ [(cb_id fn, err, result)]"
proof -
  have "delivered (foldl (\<lambda>s' (m, args, cb). wrapped opts repr m args cb now s') s0 xs) = delivered s0"
    for s0 xs
    by (induction xs arbitrary: s0) (simp_all add: wrapped_delivered split: prod.splits)
  then show ?thesis by (simp add: invoke_def)
qed

lemma fanout_delivered:
  "delivered (foldl (invoke opts repr now err result) s fns)
     = delivered s @ map (\<lambda>fn. (cb_id fn, err, result)) fns"
  by (induction fns arbitrary: s) (simp_all add: invoke_delivered)

lemma fanning_delivered: "fanning m k (s\<lparr>delivered := x\<rparr>) = fanning m k s"
  by (simp add: fanning_def registered_def)

lemma registered_delivered: "registered (s\<lparr>delivered := x\<rparr>) = registered s"
  by (simp add: registered_def)

lemma fanning_fanout:
  "fanning m k s \<Longrightarrow> fanning m k (foldl (invoke opts repr now err result) s fns)"
  by (rule fanout_preserves) (simp_all add: wrapped_fanning fanning_delivered)

lemma registered_invoke:
  "registered s \<Longrightarrow> registered (invoke opts repr now err result s fn)"
  by (rule invoke_preserves) (simp_all add: wrapped_registered registered_delivered)

lemma fanning_clear:
  assumes "fanning m k s"
  shows "registered (s\<lparr>inFlight := (inFlight s)(m := (inFlight s m)(k := None))\<rparr>)"
  using assms by (auto simp: fanning_def registered_def upkey_def)

lemma done_cb_registered:
  assumes "fanning m k s"
  shows "\<exists>s'. done_cb opts repr m k now err result s = Inr s' \<and> registered s'"
proof -
  obtain fns where fns: "inFlight s m k = Some fns"
    using assms by (auto simp: fanning_def)
  show ?thesis
    using fns assms by (simp add: done_cb_def Let_def fanning_clear fanning_fanout)
qed

lemma fanning_emit: "fanning m k (emit x s) = fanning m k s"
  by (simp add: fanning_def registered_def emit_def)

lemma fanning_cache: "fanning m k (s\<lparr>cache := c\<rparr>) = fanning m k s"
  by (simp add: fanning_def registered_def)

lemma completion_registered:
  assumes "fanning (u_method u) (u_key u) s"
  shows "\<exists>s'. completion opts repr u now err result s = Inr s' \<and> registered s'"
  using assms
  by (simp add: completion_def Let_def done_cb_registered fanning_emit fanning_cache)

lemma distinct_remove_nth:
  assumes "distinct (map f xs)" and "i < length xs"
  shows "distinct (map f (take i xs @ drop (Suc i) xs))"
    and "f (xs ! i) \<notin> set (map f (take i xs @ drop (Suc i) xs))"
proof -
  have xs: "xs = take i xs @ xs ! i # drop (Suc i) xs"
    using assms(2) by (simp add: id_take_nth_drop)
  have "distinct (map f (take i xs @ xs ! i # drop (Suc i) xs))"
    using assms(1) xs by simp
  then show "distinct (map f (take i xs @ drop (Suc i) xs))"
    and "f (xs ! i) \<notin> set (map f (take i xs @ drop (Suc i) xs))"
    by auto
qed

lemma set_remove_nth: "set (take i xs @ drop (Suc i) xs) \<subseteq> set xs"
  by (auto dest: in_set_takeD in_set_dropD)

lemma registered_take_out:
  assumes "registered s" and "i < length (pending s)"
  shows "fanning (u_method (pending s ! i)) (u_key (pending s ! i))
           (s\<lparr>pending := take i (pending s) @ drop (Suc i) (pending s)\<rparr>)"
proof -
  let ?rest = "take i (pending s) @ drop (Suc i) (pending s)"
  have d: "distinct (map upkey ?rest)" and n: "upkey (pending s ! i) \<notin> set (map upkey ?rest)"
    using assms distinct_remove_nth [of upkey "pending s" i] by (simp_all add: registered_def)
  have sub: "\<forall>u \<in> set ?rest. inFlight s (u_method u) (u_key u) \<noteq> None"
    using assms(1) set_remove_nth [of i "pending s"] by (auto simp: registered_def)
  have own: "inFlight s (u_method (pending s ! i)) (u_key (pending s ! i)) \<noteq> None"
    using assms by (simp add: registered_def)
  show ?thesis
    using d n sub own by (simp add: fanning_def registered_def upkey_def)
qed

lemma run_tick_registered: "registered s \<Longrightarrow> registered (run_tick opts repr now s)"
proof -
  assume r: "registered s"
  have "registered (s\<lparr>ticks := t\<rparr>)" for t using r by (simp add: registered_def)
  then show ?thesis
    by (simp add: run_tick_def registered_invoke r split: list.splits)
qed

lemma step_registered:
  assumes "registered s"
  shows "\<exists>s'. step opts repr e s = Inr s' \<and> registered s'"
proof (cases e)
  case (Call m a c t)
  then show ?thesis using assms by (simp add: wrapped_registered)
next
  case (Complete i err result t)
  then show ?thesis
    using assms completion_registered [OF registered_take_out [OF assms]]
    by simp
next
  case (Tick t)
  then show ?thesis using assms by (simp add: run_tick_registered)
qed

lemma run_registered:
  assumes "registered s"
  shows "\<exists>s'. run opts repr es s = Inr s' \<and> registered s'"
  using assms
proof (induction es arbitrary: s)
  case Nil
  then show ?case by simp
next
  case (Cons e es)
  obtain s1 where s1: "step opts repr e s = Inr s1" "registered s1"
    using step_registered [OF Cons.prems] by blast
  then show ?case using Cons.IH [OF s1(2)] by simp
qed

lemma registered_init: "registered (init h)"
  by (simp add: registered_def init_def)



lemma find_filter_other:
  "k' \<noteq> k \<Longrightarrow> find (\<lambda>e. e_key e = k') (filter (\<lambda>e. e_key e \<noteq> k) c) = find (\<lambda>e. e_key e = k') c"
  by (induction c) auto

lemma lru_find_key: "lru_find k c = Some e \<Longrightarrow> e_key e = k"
  by (auto simp: lru_find_def find_Some_iff)

lemma lru_read_find:
  assumes "lru_has opts now k c"
  shows "lru_find k' (snd (lru_read refresh opts now k c)) = lru_find k' c"
proof -
  obtain e where e: "lru_find k c = Some e" "\<not> expired opts now e"
    using assms by (auto simp: lru_has_def split: option.splits)
  have ek: "e_key e = k" using e(1) by (rule lru_find_key)
  show ?thesis
  proof (cases "k' = k")
    case True
    then show ?thesis using e ek by (simp add: lru_read_def) (simp add: lru_find_def)
  next
    case False
    then show ?thesis
      using e ek find_filter_other [OF False, of c]
      by (simp add: lru_read_def) (simp add: lru_find_def lru_remove_def)
  qed
qed

lemma lru_read_val:
  assumes "lru_find k c = Some e" and "\<not> expired opts now e"
  shows "fst (lru_read refresh opts now k c) = e_val e"
  using assms by (simp add: lru_read_def)

lemma pc_get_find:
  assumes "pc_has opts now k s"
  shows "lru_find k' (cache (snd (pc_get opts now k s))) = lru_find k' (cache s)"
  using assms lru_read_find [of opts now k "cache s" k']
  by (simp add: pc_get_def pc_has_def lru_peek_def lru_get_def Let_def split: prod.splits)
     (metis snd_conv)

lemma wrapped_find:
  "lru_find k' (cache (wrapped opts repr method args cb now s)) = lru_find k' (cache s)"
proof (cases "pc_has opts now (pc_key repr method args) s")
  case True
  let ?s3 = "emit (Incr ''proxy-cache.hit'' 1 [''method:'' @ method])
                 (emit (Gauge ''proxy-cache.size'' (lru_length (cache s)) [''method:'' @ method])
                   (emit (Incr ''proxy-cache.calls'' 1 [''method:'' @ method]) s))"
  have "pc_has opts now (pc_key repr method args) ?s3"
    using True by (simp add: pc_has_def emit_def)
  then have "lru_find k' (cache (snd (pc_get opts now (pc_key repr method args) ?s3))) = lru_find k' (cache s)"
    using pc_get_find [of opts now "pc_key repr method args" ?s3 k'] by (simp add: emit_def)
  then show ?thesis using True by (simp add: wrapped_hit Let_def)
next
  case False
  then show ?thesis
    by (cases "inFlight s method (pc_key repr method args)") (simp_all add: wrapped_miss wrapped_join)
qed

lemma fanout_same_entries:
  "same_entries c s \<Longrightarrow> same_entries c (foldl (invoke opts repr now e r) s fns)"
  by (rule fanout_preserves) (simp_all add: same_entries_def wrapped_find)

lemma done_cb_result:
  assumes f: "fanning m k s" and q: "inFlight s m k = Some fns"
  shows "\<exists>s'. done_cb opts repr m k now err result s = Inr s'
      \<and> delivered s' = delivered s @ map (\<lambda>fn. (cb_id fn, outcome err result)) fns
      \<and> inFlight s' m k = None
      \<and> (m, k) \<notin> set (map upkey (pending s'))
      \<and> registered s'
      \<and> same_entries (cache s) s'"
proof -
  define e r where "e = fst (outcome err result)" and "r = snd (outcome err result)"
  define s1 where "s1 = foldl (invoke opts repr now e r) s fns"
  define s2 where "s2 = s1\<lparr>inFlight := (inFlight s1)(m := (inFlight s1 m)(k := None))\<rparr>"
  have d: "done_cb opts repr m k now err result s = Inr s2"
    using q by (simp add: done_cb_def s2_def s1_def e_def r_def outcome_def Let_def)
  have f1: "fanning m k s1"
    unfolding s1_def using f by (rule fanning_fanout)
  have "delivered s2 = delivered s @ map (\<lambda>fn. (cb_id fn, outcome err result)) fns"
    by (simp add: s2_def s1_def fanout_delivered e_def r_def)
  moreover have "inFlight s2 m k = None" by (simp add: s2_def)
  moreover have "(m, k) \<notin> set (map upkey (pending s2))"
    using f1 by (simp add: s2_def fanning_def)
  moreover have "registered s2"
    unfolding s2_def using f1 by (rule fanning_clear)
  moreover have "same_entries (cache s) s2"
  proof -
    have "same_entries (cache s) s" by (simp add: same_entries_def)
    then have "same_entries (cache s) s1" unfolding s1_def by (rule fanout_same_entries)
    then show ?thesis by (simp add: s2_def same_entries_def)
  qed
  ultimately show ?thesis using d by simp
qed

lemma completion_result:
  assumes f: "fanning (u_method u) (u_key u) s" and q: "inFlight s (u_method u) (u_key u) = Some fns"
  shows "\<exists>s'. completion opts repr u now err result s = Inr s'
      \<and> delivered s' = delivered s @ map (\<lambda>fn. (cb_id fn, outcome err result)) fns
      \<and> inFlight s' (u_method u) (u_key u) = None
      \<and> (u_method u, u_key u) \<notin> set (map upkey (pending s'))
      \<and> registered s'
      \<and> same_entries
           (if \<not> truthy err \<and> (loose_neq_undefined result \<or> tombstone opts)
            then lru_set opts now (u_key u) result (cache s) else cache s) s'"
proof -
  let ?t = "emit (Timer ''proxy-cache.duration'' (now - u_start u) [''method:'' @ u_method u]) s"
  have t: "fanning (u_method u) (u_key u) ?t" "inFlight ?t (u_method u) (u_key u) = Some fns"
    "delivered ?t = delivered s" "cache ?t = cache s"
    using f q by (simp_all add: fanning_emit) (simp_all add: emit_def)
  show ?thesis
  proof (cases "truthy err")
    case True
    have o: "outcome err Undefined = outcome err result" using True by (simp add: outcome_def)
    show ?thesis
      using True done_cb_result [OF t(1) t(2), of opts repr now err Undefined] t(3) t(4) o
      by (simp add: completion_def Let_def)
  next
    case False
    have o: "outcome Null result = outcome err result" using False by (simp add: outcome_def)
    let ?c = "if loose_neq_undefined result \<or> tombstone opts
              then lru_set opts now (u_key u) result (cache s) else cache s"
    let ?s2 = "?t\<lparr>cache := ?c\<rparr>"
    have s2: "fanning (u_method u) (u_key u) ?s2" "inFlight ?s2 (u_method u) (u_key u) = Some fns"
      "delivered ?s2 = delivered s" "cache ?s2 = ?c"
      using t by (simp_all add: fanning_cache)
    have eq: "completion opts repr u now err result s
        = done_cb opts repr (u_method u) (u_key u) now Null result ?s2"
      using False t(4) by (simp add: completion_def Let_def) (simp add: emit_def)
    show ?thesis
      using False done_cb_result [OF s2(1) s2(2), of opts repr now Null result] s2(3) s2(4) o
      unfolding eq by simp
  qed
qed


lemma reachable_registered:
  assumes "run opts repr evs (init h) = Inr s"
  shows "registered s"
  using run_registered [OF registered_init, of opts repr evs h] assms by auto





section \<open>Deferred delivery of cache hits\<close>

lemma pc_get_emit:
  "fst (pc_get opts now k (emit m s)) = fst (pc_get opts now k s)"
  by (simp add: pc_get_def emit_def Let_def split: prod.splits)

lemma wrapped_hit_ticks:
  assumes "pc_has opts now (pc_key repr m args) s"
  shows "ticks (wrapped opts repr m args cb now s)
       = ticks s @ [(cb, fst (pc_get opts now (pc_key repr m args) s))]"
    and "upstream (wrapped opts repr m args cb now s) = upstream s"
    and "pending (wrapped opts repr m args cb now s) = pending s"
    and "inFlight (wrapped opts repr m args cb now s) = inFlight s"
  using assms
  by (simp_all add: wrapped_hit Let_def pc_get_fields pc_get_emit)
     (simp_all add: emit_def)

lemma wrapped_nohit_ticks:
  assumes "\<not> pc_has opts now (pc_key repr m args) s"
  shows "ticks (wrapped opts repr m args cb now s) = ticks s"
  using assms
  by (cases "inFlight s m (pc_key repr m args)") (simp_all add: wrapped_miss wrapped_join)

lemma run_tick_delivers:
  assumes "ticks s = (fn, v) # rest"
  shows "delivered (run_tick opts repr now s) = delivered s @ [(cb_id fn, Null, v)]"
  using assms by (simp add: run_tick_def invoke_delivered)

text \<open>
  C7: a call of a wrapped method never invokes a callback within the call, whether it
  hits the cache or not; on a hit the delivery \<open>callback(null, cached)\<close> is handed to the
  scheduler and nothing else happens (no invocation of the underlying method, no change
  of the registry), a call that misses hands nothing to the scheduler, and the callback
  is invoked when the scheduler runs that tick.
\<close>

theorem hit_is_deferred:
  "delivered (wrapped opts repr m args cb now s) = delivered s
   \<and> (pc_has opts now (pc_key repr m args) s \<longrightarrow>
        ticks (wrapped opts repr m args cb now s)
          = ticks s @ [(cb, fst (pc_get opts now (pc_key repr m args) s))]
        \<and> upstream (wrapped opts repr m args cb now s) = upstream s
        \<and> inFlight (wrapped opts repr m args cb now s) = inFlight s)
   \<and> (\<not> pc_has opts now (pc_key repr m args) s \<longrightarrow>
        ticks (wrapped opts repr m args cb now s) = ticks s)
   \<and> (ticks s = (fn, v) # rest \<longrightarrow>
        delivered (run_tick opts repr now s) = delivered s @ [(cb_id fn, Null, v)])"
  by (simp add: wrapped_delivered wrapped_hit_ticks wrapped_nohit_ticks run_tick_delivers)


theorem hit_is_deferred_witness:
  "pc_has opts0 7 (pc_key plain ''fetch'' [Number 1])
     ((init [])\<lparr>cache := [\<lparr>e_key = ''fetch:1'', e_val = Text ''ann'', e_at = 5\<rparr>]\<rparr>)
   \<and> delivered (wrapped opts0 plain ''fetch'' [Number 1] (quiet 4) 7
        ((init [])\<lparr>cache := [\<lparr>e_key = ''fetch:1'', e_val = Text ''ann'', e_at = 5\<rparr>]\<rparr>)) = []
   \<and> ticks (wrapped opts0 plain ''fetch'' [Number 1] (quiet 4) 7
        ((init [])\<lparr>cache := [\<lparr>e_key = ''fetch:1'', e_val = Text ''ann'', e_at = 5\<rparr>]\<rparr>))
       = [(quiet 4, Text ''ann'')]
   \<and> delivered (run_tick opts0 plain 8 ((init [])\<lparr>ticks := [(quiet 4, Text ''ann'')]\<rparr>))
       = [(4, Null, Text ''ann'')]"
proof -
  let ?s = "(init [])\<lparr>cache := [\<lparr>e_key = ''fetch:1'', e_val = Text ''ann'', e_at = 5\<rparr>]\<rparr>"
  have k: "pc_key plain ''fetch'' [Number 1] = ''fetch:1''"
    by (simp add: pc_key_unfold key_spec_def stringify_def number_string_def digit_char_def)
  have h: "pc_has opts0 7 (pc_key plain ''fetch'' [Number 1]) ?s"
    unfolding k
    by (simp add: pc_has_def lru_has_def lru_find_def expired_def opts0_def defaults_def or_default_def)
  have g: "fst (pc_get opts0 7 (pc_key plain ''fetch'' [Number 1]) ?s) = Text ''ann''"
    unfolding k
    by (simp add: pc_get_def lru_peek_def lru_read_def lru_find_def expired_def opts0_def
        defaults_def or_default_def clone_depth1_def)
  have t: "ticks ((init [])\<lparr>ticks := [(quiet 4, Text ''ann'')]\<rparr>) = (quiet 4, Text ''ann'') # []"
    by simp
  show ?thesis
    using h g t
      hit_is_deferred [of opts0 plain "''fetch''" "[Number 1]" "quiet 4" 7 ?s]
      hit_is_deferred [of opts0 plain "''fetch''" "[Number 1]" "quiet 4" 8
        "(init [])\<lparr>ticks := [(quiet 4, Text ''ann'')]\<rparr>" "quiet 4" "Text ''ann''" "[]"]
    by (simp add: init_def quiet_def)
qed

section \<open>Metrics\<close>











section \<open>The proxy builder\<close>











text \<open>
  C5, at the input \<^verbatim>\<open>ProxyCache(null, [])\<close>: null passes the guard
  \<^verbatim>\<open>typeof instance !== 'object'\<close>, the loop over its members has nothing to visit, and
  with no method to wrap the construction returns a wrapped instance around null.
\<close>

theorem null_instance_accepted:
  "\<exists>w. ProxyCache [] Null (ArrayOf []) no_options = Inr w \<and> parent w = Null
        \<and> members w = (\<lambda>k. None)"
  by (simp add: ProxyCache_def for_in_def)

section \<open>Copies handed to callers\<close>

lemmas eval_defs =
  opts0_def defaults_def or_default_def quiet_def plain_def init_def
  wrapped_def completion_def done_cb_def invoke_def run_tick_def emit_def
  pc_has_def pc_get_def lru_has_def lru_find_def lru_read_def lru_peek_def lru_get_def
  lru_set_def lru_remove_def lru_length_def expired_def clone_depth1_def
  pc_key_def stringify_def number_string_def digit_char_def loose_neq_undefined_def
  observe_def caller_mutates_def and_then_def mutate_def deref_def member_of_def Let_def

text \<open>
  C3 fails on both paths. (1) The result of the underlying method is handed to every
  waiter and stored, all three as the same object: after the first caller renames its
  result, the second caller's result and the stored entry are the renamed object, and a
  later caller served from the cache receives a copy of the renamed object. (2) The copy
  made on a cache hit has depth 1: the third caller's copy and the stored object have
  the same address object, so when that caller moves the address, the stored entry's
  address has moved.
\<close>

theorem results_are_shared:
  "observe delivered (run opts0 plain two_waiters (init user_heap))
       = Some [(1, Null, Object 0), (2, Null, Object 0)]
   \<and> observe (\<lambda>s. map e_val (cache s)) (run opts0 plain two_waiters (init user_heap))
       = Some [Object 0]
   \<and> observe (\<lambda>s. deref (heap s) (Object 0)) (run opts0 plain two_waiters (init user_heap))
       = Some (Some (user_heap ! 0))
   \<and> observe (\<lambda>s. deref (heap s) (Object 0))
        (caller_mutates 0 renamed (run opts0 plain two_waiters (init user_heap)))
       = Some (Some renamed)
   \<and> renamed \<noteq> user_heap ! 0
   \<and> observe (\<lambda>s. (delivered s, deref (heap s) (Object 2)))
        (and_then opts0 plain later_hit
          (caller_mutates 0 renamed (run opts0 plain two_waiters (init user_heap))))
       = Some ([(1, Null, Object 0), (2, Null, Object 0), (3, Null, Object 2)], Some renamed)
   \<and> observe (\<lambda>s. (delivered s, member_of (heap s ! 2) ''address'', member_of (heap s ! 0) ''address''))
        (and_then opts0 plain later_hit (run opts0 plain two_waiters (init user_heap)))
       = Some ([(1, Null, Object 0), (2, Null, Object 0), (3, Null, Object 2)], Object 1, Object 1)
   \<and> observe (\<lambda>s. deref (heap s) (member_of (heap s ! 0) ''address''))
        (caller_mutates 1 moved
          (and_then opts0 plain later_hit (run opts0 plain two_waiters (init user_heap))))
       = Some (Some moved)
   \<and> moved \<noteq> user_heap ! 1"
  by (simp add: eval_defs two_waiters_def later_hit_def user_heap_def renamed_def moved_def)


lemma pc_get_hit:
  assumes "lru_find k (cache s) = Some e" and "\<not> expired opts now e"
  shows "fst (pc_get opts now k s) = fst (clone_depth1 (e_val e) (heap s))"
    and "heap (snd (pc_get opts now k s)) = snd (clone_depth1 (e_val e) (heap s))"
  using assms lru_read_val [OF assms, of True] lru_read_val [OF assms, of False]
  by (auto simp: pc_get_def lru_peek_def lru_get_def Let_def split: prod.splits)

lemma wrapped_hit_heap:
  assumes "pc_has opts now (pc_key repr m args) s"
  shows "heap (wrapped opts repr m args cb now s)
       = heap (snd (pc_get opts now (pc_key repr m args) s))"
  using assms
  by (simp add: wrapped_hit Let_def) (simp add: pc_get_def emit_def Let_def split: prod.splits)

lemma clone_depth1_object:
  assumes "a < length h"
  shows "clone_depth1 (Object a) h = (Object (length h), h @ [h ! a])"
  using assms by (simp add: clone_depth1_def)

lemma clone_depth1_other:
  assumes "\<forall>a. v \<noteq> Object a"
  shows "clone_depth1 v h = (v, h)"
  using assms by (cases v) (simp_all add: clone_depth1_def)

text \<open>
  C3 as amended: when a call is served from the cache, the stored value itself is not
  handed out if it is an object. The caller is handed a new object, one that did not
  exist before the call, with the members of the stored object; the objects that
  existed before the call are unchanged by it, the entries of the cache are unchanged,
  and a mutation of the new object changes no other object. The members of the new
  object are the members of the stored object, not copies of them. A stored value that
  is not an object is handed out as it is.
\<close>

theorem hit_hands_out_copy:
  assumes "pc_has opts now (pc_key repr m args) s"
  shows "\<exists>e. lru_find (pc_key repr m args) (cache s) = Some e
      \<and> same_entries (cache s) (wrapped opts repr m args cb now s)
      \<and> (\<forall>a. e_val e = Object a \<and> a < length (heap s) \<longrightarrow>
            ticks (wrapped opts repr m args cb now s) = ticks s @ [(cb, Object (length (heap s)))]
          \<and> deref (heap s) (Object (length (heap s))) = None
          \<and> heap (wrapped opts repr m args cb now s) = heap s @ [heap s ! a]
          \<and> (\<forall>ob h a'. a' \<noteq> length (heap s) \<longrightarrow> mutate (length (heap s)) ob h ! a' = h ! a'))
      \<and> ((\<forall>a. e_val e \<noteq> Object a) \<longrightarrow>
            ticks (wrapped opts repr m args cb now s) = ticks s @ [(cb, e_val e)]
          \<and> heap (wrapped opts repr m args cb now s) = heap s)"
proof -
  let ?k = "pc_key repr m args"
  obtain e where e: "lru_find ?k (cache s) = Some e" "\<not> expired opts now e"
    using assms by (auto simp: pc_has_def lru_has_def split: option.splits)
  note g = pc_get_hit [OF e] and t = wrapped_hit_ticks(1) [OF assms] and h = wrapped_hit_heap [OF assms]
  have same: "same_entries (cache s) (wrapped opts repr m args cb now s)"
    by (simp add: same_entries_def wrapped_find)
  have obj: "ticks (wrapped opts repr m args cb now s) = ticks s @ [(cb, Object (length (heap s)))]
          \<and> deref (heap s) (Object (length (heap s))) = None
          \<and> heap (wrapped opts repr m args cb now s) = heap s @ [heap s ! a]
          \<and> (\<forall>ob h a'. a' \<noteq> length (heap s) \<longrightarrow> mutate (length (heap s)) ob h ! a' = h ! a')"
    if "e_val e = Object a" "a < length (heap s)" for a
    using that g t h clone_depth1_object [OF that(2)]
    by (simp add: deref_def mutate_def)
  have other: "ticks (wrapped opts repr m args cb now s) = ticks s @ [(cb, e_val e)]
          \<and> heap (wrapped opts repr m args cb now s) = heap s"
    if "\<forall>a. e_val e \<noteq> Object a"
    using g t h clone_depth1_other [OF that] by simp
  show ?thesis
    using e(1) same obj other by blast
qed


theorem hit_hands_out_copy_witness:
  "pc_has opts0 6 (pc_key plain ''fetch'' [Number 1]) cached_user
   \<and> ticks (wrapped opts0 plain ''fetch'' [Number 1] (quiet 3) 6 cached_user) = [(quiet 3, Object 2)]
   \<and> heap (wrapped opts0 plain ''fetch'' [Number 1] (quiet 3) 6 cached_user)
       = user_heap @ [user_heap ! 0]"
proof -
  have k: "pc_key plain ''fetch'' [Number 1] = ''fetch:1''"
    by (simp add: pc_key_unfold key_spec_def stringify_def number_string_def digit_char_def)
  have h: "pc_has opts0 6 (pc_key plain ''fetch'' [Number 1]) cached_user"
    unfolding k
    by (simp add: pc_has_def lru_has_def lru_find_def expired_def opts0_def defaults_def
        or_default_def cached_user_def)
  have f: "lru_find (pc_key plain ''fetch'' [Number 1]) (cache cached_user)
      = Some \<lparr>e_key = ''fetch:1'', e_val = Object 0, e_at = 5\<rparr>"
    unfolding k by (simp add: lru_find_def cached_user_def)
  have l: "heap cached_user = user_heap" "length user_heap = 2" "ticks cached_user = []"
    by (simp_all add: cached_user_def init_def user_heap_def)
  obtain e where e: "lru_find (pc_key plain ''fetch'' [Number 1]) (cache cached_user) = Some e"
    and o: "\<forall>a. e_val e = Object a \<and> a < length (heap cached_user) \<longrightarrow>
            ticks (wrapped opts0 plain ''fetch'' [Number 1] (quiet 3) 6 cached_user)
              = ticks cached_user @ [(quiet 3, Object (length (heap cached_user)))]
          \<and> deref (heap cached_user) (Object (length (heap cached_user))) = None
          \<and> heap (wrapped opts0 plain ''fetch'' [Number 1] (quiet 3) 6 cached_user)
              = heap cached_user @ [heap cached_user ! a]
          \<and> (\<forall>ob h a'. a' \<noteq> length (heap cached_user) \<longrightarrow>
                mutate (length (heap cached_user)) ob h ! a' = h ! a')"
    using hit_hands_out_copy [OF h, of "quiet 3"] by blast
  have "e = \<lparr>e_key = ''fetch:1'', e_val = Object 0, e_at = 5\<rparr>" using e f by simp
  then have "e_val e = Object 0" by simp
  then show ?thesis using o h l by simp
qed

section \<open>Completion of an invocation\<close>

lemma complete_at:
  assumes reg: "registered s" and i: "i < length (pending s)"
  shows "\<exists>s' fns. inFlight s (u_method (pending s ! i)) (u_key (pending s ! i)) = Some fns
      \<and> step opts repr (Complete i err result now) s = Inr s'
      \<and> delivered s' = delivered s @ map (\<lambda>fn. (cb_id fn, outcome err result)) fns
      \<and> inFlight s' (u_method (pending s ! i)) (u_key (pending s ! i)) = None
      \<and> (u_method (pending s ! i), u_key (pending s ! i)) \<notin> set (map upkey (pending s'))
      \<and> registered s'
      \<and> same_entries
           (if \<not> truthy err \<and> (loose_neq_undefined result \<or> tombstone opts)
            then lru_set opts now (u_key (pending s ! i)) result (cache s) else cache s) s'"
proof -
  let ?u = "pending s ! i"
  let ?s0 = "s\<lparr>pending := take i (pending s) @ drop (Suc i) (pending s)\<rparr>"
  have "?u \<in> set (pending s)" using i by simp
  then have "inFlight s (u_method ?u) (u_key ?u) \<noteq> None"
    using reg unfolding registered_def by blast
  then obtain fns where q: "inFlight s (u_method ?u) (u_key ?u) = Some fns"
    by blast
  have f: "fanning (u_method ?u) (u_key ?u) ?s0"
    using reg i by (rule registered_take_out)
  have q0: "inFlight ?s0 (u_method ?u) (u_key ?u) = Some fns" using q by simp
  have st: "step opts repr (Complete i err result now) s = completion opts repr ?u now err result ?s0"
    using i by simp
  have c0: "cache ?s0 = cache s" "delivered ?s0 = delivered s" by simp_all
  show ?thesis
    using completion_result [OF f q0, of opts repr now err result] q
    unfolding st c0 by blast
qed

lemma pc_has_same_entries:
  assumes "same_entries c s"
  shows "pc_has opts t k s = lru_has opts t k c"
  using assms by (simp add: same_entries_def pc_has_def lru_has_def)

lemma next_call_invokes:
  assumes "inFlight s m (pc_key repr m args) = None"
    and "\<not> pc_has opts t (pc_key repr m args) s"
  shows "upstream (wrapped opts repr m args cb t s) = upstream s @ [(m, args)]"
  using assms by (simp add: wrapped_miss)

lemma lru_set_find:
  assumes "0 < max_entries opts"
  shows "lru_find k (lru_set opts now k v c) = Some \<lparr>e_key = k, e_val = v, e_at = now\<rparr>"
proof -
  obtain n where n: "nat (max_entries opts) = Suc n"
    using assms by (cases "nat (max_entries opts)") auto
  show ?thesis by (simp add: lru_set_def lru_find_def n)
qed

text \<open>
  What holds on the error path for the callbacks queued when the invocation completes: the error
  creates no cache entry, each of them is invoked with the error, in order, the registry
  entry is cleared, and a call made after the completion function has returned invokes
  the underlying method again.
\<close>

lemma error_is_not_cached:
  assumes reach: "run opts repr evs (init h) = Inr s" and i: "i < length (pending s)"
    and err: "truthy err"
  shows "\<exists>s' fns. inFlight s (u_method (pending s ! i)) (u_key (pending s ! i)) = Some fns
      \<and> step opts repr (Complete i err result now) s = Inr s'
      \<and> same_entries (cache s) s'
      \<and> delivered s' = delivered s @ map (\<lambda>fn. (cb_id fn, err, Undefined)) fns
      \<and> inFlight s' (u_method (pending s ! i)) (u_key (pending s ! i)) = None
      \<and> (\<forall>t args cb. pc_key repr (u_method (pending s ! i)) args = u_key (pending s ! i)
            \<and> \<not> pc_has opts t (u_key (pending s ! i)) s
          \<longrightarrow> upstream (wrapped opts repr (u_method (pending s ! i)) args cb t s')
                = upstream s' @ [(u_method (pending s ! i), args)])"
proof -
  let ?m = "u_method (pending s ! i)" and ?k = "u_key (pending s ! i)"
  have reg: "registered s" using reach by (rule reachable_registered)
  obtain s' fns where r: "inFlight s ?m ?k = Some fns"
    "step opts repr (Complete i err result now) s = Inr s'"
    "delivered s' = delivered s @ map (\<lambda>fn. (cb_id fn, outcome err result)) fns"
    "inFlight s' ?m ?k = None"
    "same_entries (cache s) s'"
    using complete_at [OF reg i, of opts repr err result now] err by auto
  have nx: "upstream (wrapped opts repr ?m args cb t s') = upstream s' @ [(?m, args)]"
    if "pc_key repr ?m args = ?k" "\<not> pc_has opts t ?k s" for t args cb
  proof -
    have "\<not> pc_has opts t ?k s'"
      using that(2) pc_has_same_entries [OF r(5), of opts t ?k] by (simp add: pc_has_def)
    then show ?thesis using next_call_invokes [of s' ?m repr args opts t cb] r(4) that(1) by simp
  qed
  show ?thesis
    using r nx err by (intro exI [of _ s'] exI [of _ fns]) (simp add: outcome_def)
qed

text \<open>
  C2, at the input where the first caller's callback retries at once: the callback is
  handed the error and calls the wrapped method again with the same argument while
  \<^verbatim>\<open>done\<close> is still in its loop. The retry finds the registry entry of the failed
  invocation, is pushed onto it, and \<^verbatim>\<open>done\<close> then clears the entry: the second call
  is counted (two \<open>proxy-cache.calls\<close>), the underlying method is invoked once, not
  twice, the second callback is never invoked, and nothing is left that could invoke it
  (no pending invocation, no tick, no registry entry).
\<close>

theorem retry_is_dropped:
  "observe delivered (run opts0 plain failing_fetch (init [])) = Some [(1, Text ''boom'', Undefined)]
   \<and> observe upstream (run opts0 plain failing_fetch (init [])) = Some [(''fetch'', [Number 1])]
   \<and> observe stats (run opts0 plain failing_fetch (init []))
       = Some [Incr ''proxy-cache.calls'' 1 [''method:fetch''],
               Gauge ''proxy-cache.size'' 0 [''method:fetch''],
               Incr ''proxy-cache.miss'' 1 [''method:fetch''],
               Timer ''proxy-cache.duration'' 5 [''method:fetch''],
               Incr ''proxy-cache.calls'' 1 [''method:fetch''],
               Gauge ''proxy-cache.size'' 0 [''method:fetch'']]
   \<and> observe pending (run opts0 plain failing_fetch (init [])) = Some []
   \<and> observe (\<lambda>s. map snd (ticks s)) (run opts0 plain failing_fetch (init [])) = Some []
   \<and> observe (\<lambda>s. inFlight s ''fetch'' ''fetch:1'') (run opts0 plain failing_fetch (init [])) = Some None"
  by (simp add: eval_defs failing_fetch_def retry_on_error_def)


lemma served_from_cache:
  assumes f: "lru_find (pc_key repr m args) (cache s) = Some e" and live: "\<not> expired opts t e"
    and prim: "\<forall>a. e_val e \<noteq> Object a"
  shows "ticks (wrapped opts repr m args cb t s) = ticks s @ [(cb, e_val e)]"
    and "upstream (wrapped opts repr m args cb t s) = upstream s"
proof -
  have h: "pc_has opts t (pc_key repr m args) s"
    using f live by (simp add: pc_has_def lru_has_def)
  show "ticks (wrapped opts repr m args cb t s) = ticks s @ [(cb, e_val e)]"
    using wrapped_hit_ticks(1) [OF h] pc_get_hit(1) [OF f live] clone_depth1_other [OF prim]
    by simp
  show "upstream (wrapped opts repr m args cb t s) = upstream s"
    using wrapped_hit_ticks(2) [OF h] .
qed

text \<open>
  The caching decision: when an invocation of the underlying method completes without an error, the
  result is stored under the key exactly when the presence test \<^verbatim>\<open>result != undefined\<close>
  holds (the result is defined) or the tombstone option is enabled: in that case the
  cache is the old one after \<^verbatim>\<open>set(key, result)\<close>, and with room for an entry the
  key then holds the result; otherwise every key holds what it held before. In
  particular, with the tombstone option disabled an undefined result leaves the cache
  as it was, and a call for that key made once the completion function has returned, at
  a time when the cache had no live entry for the key, invokes the underlying method
  again.
\<close>

lemma tombstone_decides:
  assumes reach: "run opts repr evs (init h) = Inr s" and i: "i < length (pending s)"
    and ok: "\<not> truthy err"
  shows "\<exists>s'. step opts repr (Complete i err result now) s = Inr s'
      \<and> same_entries
           (if loose_neq_undefined result \<or> tombstone opts
            then lru_set opts now (u_key (pending s ! i)) result (cache s) else cache s) s'
      \<and> ((loose_neq_undefined result \<or> tombstone opts) \<and> 0 < max_entries opts \<longrightarrow>
            lru_find (u_key (pending s ! i)) (cache s')
              = Some \<lparr>e_key = u_key (pending s ! i), e_val = result, e_at = now\<rparr>)
      \<and> (\<not> (loose_neq_undefined result \<or> tombstone opts) \<longrightarrow> same_entries (cache s) s')
      \<and> (result = Undefined \<and> \<not> tombstone opts \<longrightarrow>
            same_entries (cache s) s'
          \<and> (\<forall>t args cb. pc_key repr (u_method (pending s ! i)) args = u_key (pending s ! i)
                \<and> \<not> pc_has opts t (u_key (pending s ! i)) s
              \<longrightarrow> upstream (wrapped opts repr (u_method (pending s ! i)) args cb t s')
                    = upstream s' @ [(u_method (pending s ! i), args)]))"
proof -
  let ?m = "u_method (pending s ! i)" and ?k = "u_key (pending s ! i)"
  let ?c = "if loose_neq_undefined result \<or> tombstone opts
            then lru_set opts now ?k result (cache s) else cache s"
  have reg: "registered s" using reach by (rule reachable_registered)
  obtain s' where r: "step opts repr (Complete i err result now) s = Inr s'"
    "inFlight s' ?m ?k = None" "same_entries ?c s'"
    using complete_at [OF reg i, of opts repr err result now] ok by auto
  have stored: "lru_find ?k (cache s') = Some \<lparr>e_key = ?k, e_val = result, e_at = now\<rparr>"
    if "loose_neq_undefined result \<or> tombstone opts" "0 < max_entries opts"
    using that r(3) lru_set_find [OF that(2)] by (simp add: same_entries_def)
  have kept: "same_entries (cache s) s'" if "\<not> (loose_neq_undefined result \<or> tombstone opts)"
    using that r(3) by simp
  have again: "upstream (wrapped opts repr ?m args cb t s') = upstream s' @ [(?m, args)]"
    if "result = Undefined" "\<not> tombstone opts" "pc_key repr ?m args = ?k" "\<not> pc_has opts t ?k s"
    for t args cb
  proof -
    have "same_entries (cache s) s'" using kept that(1,2) by (simp add: loose_neq_undefined_def)
    then have "\<not> pc_has opts t ?k s'"
      using that(4) pc_has_same_entries [of "cache s" s' opts t ?k] by (simp add: pc_has_def)
    then show ?thesis using next_call_invokes [of s' ?m repr args opts t cb] r(2) that(3) by simp
  qed
  have undef: "same_entries (cache s) s'" if "result = Undefined" "\<not> tombstone opts"
    using kept that by (simp add: loose_neq_undefined_def)
  show ?thesis
    using r(1) r(3) stored kept again undef by (intro exI [of _ s']) blast
qed


lemma first_fetch:
  "run opts repr [Call ''fetch'' [Number 1] (quiet 1) 0] (init [])
     = Inr (wrapped opts repr ''fetch'' [Number 1] (quiet 1) 0 (init []))"
  "pending (wrapped opts repr ''fetch'' [Number 1] (quiet 1) 0 (init []))
     = [\<lparr>u_method = ''fetch'', u_args = [Number 1],
         u_key = pc_key repr ''fetch'' [Number 1], u_start = 0\<rparr>]"
  "cache (wrapped opts repr ''fetch'' [Number 1] (quiet 1) 0 (init [])) = []"
proof -
  have nohit: "\<not> pc_has opts 0 (pc_key repr ''fetch'' [Number 1]) (init [])"
    by (simp add: pc_has_def init_def lru_has_def lru_find_def)
  have idle: "inFlight (init []) ''fetch'' (pc_key repr ''fetch'' [Number 1]) = None"
    by (simp add: init_def)
  show "run opts repr [Call ''fetch'' [Number 1] (quiet 1) 0] (init [])
     = Inr (wrapped opts repr ''fetch'' [Number 1] (quiet 1) 0 (init []))"
    by simp
  show "pending (wrapped opts repr ''fetch'' [Number 1] (quiet 1) 0 (init []))
     = [\<lparr>u_method = ''fetch'', u_args = [Number 1],
         u_key = pc_key repr ''fetch'' [Number 1], u_start = 0\<rparr>]"
    using nohit idle by (simp add: wrapped_pending) (simp add: init_def)
  show "cache (wrapped opts repr ''fetch'' [Number 1] (quiet 1) 0 (init [])) = []"
    using nohit idle by (simp add: wrapped_miss) (simp add: init_def)
qed

lemma tombstone_decides_example:
  "\<exists>s'. step no_tombstone plain (Complete 0 Null Undefined 5)
            (wrapped no_tombstone plain ''fetch'' [Number 1] (quiet 1) 0 (init [])) = Inr s'
     \<and> lru_find (pc_key plain ''fetch'' [Number 1]) (cache s') = None
     \<and> upstream (wrapped no_tombstone plain ''fetch'' [Number 1] (quiet 2) 6 s')
         = upstream s' @ [(''fetch'', [Number 1])]"
proof -
  let ?s = "wrapped no_tombstone plain ''fetch'' [Number 1] (quiet 1) 0 (init [])"
  let ?k = "pc_key plain ''fetch'' [Number 1]"
  note f = first_fetch [of no_tombstone plain]
  have i: "0 < length (pending ?s)" unfolding f(2) by simp
  have ok: "\<not> truthy Null" by simp
  have nt: "\<not> tombstone no_tombstone" by (simp add: no_tombstone_def)
  have u: "u_method (pending ?s ! 0) = ''fetch''" "u_key (pending ?s ! 0) = ?k"
    unfolding f(2) by simp_all
  have nohit: "\<not> pc_has no_tombstone 6 ?k ?s"
    unfolding pc_has_def f(3) by (simp add: lru_has_def lru_find_def)
  obtain s' where s': "step no_tombstone plain (Complete 0 Null Undefined 5) ?s = Inr s'"
    and keep: "Undefined = Undefined \<and> \<not> tombstone no_tombstone \<longrightarrow>
            same_entries (cache ?s) s'
          \<and> (\<forall>t args cb. pc_key plain (u_method (pending ?s ! 0)) args = u_key (pending ?s ! 0)
                \<and> \<not> pc_has no_tombstone t (u_key (pending ?s ! 0)) ?s
              \<longrightarrow> upstream (wrapped no_tombstone plain (u_method (pending ?s ! 0)) args cb t s')
                    = upstream s' @ [(u_method (pending ?s ! 0), args)])"
    using tombstone_decides [OF f(1) i ok, of Undefined 5] by blast
  have "same_entries (cache ?s) s'" using keep nt by simp
  then have "lru_find ?k (cache s') = lru_find ?k (cache ?s)"
    by (simp add: same_entries_def)
  then have "lru_find ?k (cache s') = None"
    unfolding f(3) by (simp add: lru_find_def)
  moreover have "upstream (wrapped no_tombstone plain ''fetch'' [Number 1] (quiet 2) 6 s')
         = upstream s' @ [(''fetch'', [Number 1])]"
    using keep nt u nohit by simp
  ultimately show ?thesis using s' by blast
qed

text \<open>
  Null results: the presence test gives the same answer for null as for undefined, so for a null
  result the tombstone option alone decides. With the option disabled the cache is left
  as it was, and a call for that key made once the completion function has returned, at
  a time when the cache had no live entry for the key, invokes the underlying method
  again. With the option enabled (and room for an entry) the key holds null, and a call
  for that key within \<open>maxAge\<close> of the completion is served null from the cache, with no
  invocation of the underlying method.
\<close>

lemma null_like_undefined:
  assumes reach: "run opts repr evs (init h) = Inr s" and i: "i < length (pending s)"
    and ok: "\<not> truthy err"
  shows "loose_neq_undefined Null = loose_neq_undefined Undefined
      \<and> (\<exists>s'. step opts repr (Complete i err Null now) s = Inr s'
          \<and> same_entries
               (if tombstone opts then lru_set opts now (u_key (pending s ! i)) Null (cache s)
                else cache s) s'
          \<and> (\<not> tombstone opts \<longrightarrow>
                (\<forall>t args cb. pc_key repr (u_method (pending s ! i)) args = u_key (pending s ! i)
                    \<and> \<not> pc_has opts t (u_key (pending s ! i)) s
                  \<longrightarrow> upstream (wrapped opts repr (u_method (pending s ! i)) args cb t s')
                        = upstream s' @ [(u_method (pending s ! i), args)]))
          \<and> (tombstone opts \<and> 0 < max_entries opts \<longrightarrow>
                lru_find (u_key (pending s ! i)) (cache s')
                  = Some \<lparr>e_key = u_key (pending s ! i), e_val = Null, e_at = now\<rparr>
              \<and> (\<forall>t args cb. pc_key repr (u_method (pending s ! i)) args = u_key (pending s ! i)
                    \<and> t - now \<le> maxAge opts
                  \<longrightarrow> ticks (wrapped opts repr (u_method (pending s ! i)) args cb t s')
                        = ticks s' @ [(cb, Null)]
                    \<and> upstream (wrapped opts repr (u_method (pending s ! i)) args cb t s')
                        = upstream s')))"
proof -
  let ?m = "u_method (pending s ! i)" and ?k = "u_key (pending s ! i)"
  let ?c = "if tombstone opts then lru_set opts now ?k Null (cache s) else cache s"
  have reg: "registered s" using reach by (rule reachable_registered)
  obtain s' where r: "step opts repr (Complete i err Null now) s = Inr s'"
    "inFlight s' ?m ?k = None" "same_entries ?c s'"
    using complete_at [OF reg i, of opts repr err Null now] ok
    by (auto simp: loose_neq_undefined_def)
  have again: "upstream (wrapped opts repr ?m args cb t s') = upstream s' @ [(?m, args)]"
    if "\<not> tombstone opts" "pc_key repr ?m args = ?k" "\<not> pc_has opts t ?k s" for t args cb
  proof -
    have "same_entries (cache s) s'" using r(3) that(1) by simp
    then have "\<not> pc_has opts t ?k s'"
      using that(3) pc_has_same_entries [of "cache s" s' opts t ?k] by (simp add: pc_has_def)
    then show ?thesis using next_call_invokes [of s' ?m repr args opts t cb] r(2) that(2) by simp
  qed
  have stored: "lru_find ?k (cache s') = Some \<lparr>e_key = ?k, e_val = Null, e_at = now\<rparr>"
    if "tombstone opts" "0 < max_entries opts"
    using that r(3) lru_set_find [OF that(2)] by (simp add: same_entries_def)
  have served: "ticks (wrapped opts repr ?m args cb t s') = ticks s' @ [(cb, Null)]
      \<and> upstream (wrapped opts repr ?m args cb t s') = upstream s'"
    if "tombstone opts" "0 < max_entries opts" "pc_key repr ?m args = ?k" "t - now \<le> maxAge opts"
    for t args cb
  proof -
    let ?e = "\<lparr>e_key = ?k, e_val = Null, e_at = now\<rparr>"
    have f: "lru_find (pc_key repr ?m args) (cache s') = Some ?e"
      using stored that by simp
    have live: "\<not> expired opts t ?e" using that(4) by (simp add: expired_def)
    have prim: "\<forall>a. e_val ?e \<noteq> Object a" by simp
    show ?thesis using served_from_cache [OF f live prim, of cb] by simp
  qed
  have "loose_neq_undefined Null = loose_neq_undefined Undefined"
    by (simp add: loose_neq_undefined_def)
  moreover have "\<exists>s'. step opts repr (Complete i err Null now) s = Inr s'
          \<and> same_entries ?c s'
          \<and> (\<not> tombstone opts \<longrightarrow>
                (\<forall>t args cb. pc_key repr ?m args = ?k \<and> \<not> pc_has opts t ?k s
                  \<longrightarrow> upstream (wrapped opts repr ?m args cb t s') = upstream s' @ [(?m, args)]))
          \<and> (tombstone opts \<and> 0 < max_entries opts \<longrightarrow>
                lru_find ?k (cache s') = Some \<lparr>e_key = ?k, e_val = Null, e_at = now\<rparr>
              \<and> (\<forall>t args cb. pc_key repr ?m args = ?k \<and> t - now \<le> maxAge opts
                  \<longrightarrow> ticks (wrapped opts repr ?m args cb t s') = ticks s' @ [(cb, Null)]
                    \<and> upstream (wrapped opts repr ?m args cb t s') = upstream s'))"
    using r(1) r(3) again stored served by (intro exI [of _ s']) blast
  ultimately show ?thesis by blast
qed


lemma null_like_undefined_example:
  "\<exists>s'. step opts0 plain (Complete 0 Null Null 5)
            (wrapped opts0 plain ''fetch'' [Number 1] (quiet 1) 0 (init [])) = Inr s'
     \<and> lru_find (pc_key plain ''fetch'' [Number 1]) (cache s')
         = Some \<lparr>e_key = pc_key plain ''fetch'' [Number 1], e_val = Null, e_at = 5\<rparr>
     \<and> ticks (wrapped opts0 plain ''fetch'' [Number 1] (quiet 2) 6 s') = ticks s' @ [(quiet 2, Null)]
     \<and> upstream (wrapped opts0 plain ''fetch'' [Number 1] (quiet 2) 6 s') = upstream s'"
proof -
  let ?s = "wrapped opts0 plain ''fetch'' [Number 1] (quiet 1) 0 (init [])"
  let ?k = "pc_key plain ''fetch'' [Number 1]"
  note f = first_fetch [of opts0 plain]
  have i: "0 < length (pending ?s)" unfolding f(2) by simp
  have ok: "\<not> truthy Null" by simp
  have o: "tombstone opts0" "0 < max_entries opts0" "(6::int) - 5 \<le> maxAge opts0"
    by (simp_all add: opts0_def defaults_def or_default_def)
  have u: "u_method (pending ?s ! 0) = ''fetch''" "u_key (pending ?s ! 0) = ?k"
    unfolding f(2) by simp_all
  obtain s' where s': "step opts0 plain (Complete 0 Null Null 5) ?s = Inr s'"
    and st: "tombstone opts0 \<and> 0 < max_entries opts0 \<longrightarrow>
                lru_find (u_key (pending ?s ! 0)) (cache s')
                  = Some \<lparr>e_key = u_key (pending ?s ! 0), e_val = Null, e_at = 5\<rparr>
              \<and> (\<forall>t args cb. pc_key plain (u_method (pending ?s ! 0)) args = u_key (pending ?s ! 0)
                    \<and> t - 5 \<le> maxAge opts0
                  \<longrightarrow> ticks (wrapped opts0 plain (u_method (pending ?s ! 0)) args cb t s')
                        = ticks s' @ [(cb, Null)]
                    \<and> upstream (wrapped opts0 plain (u_method (pending ?s ! 0)) args cb t s')
                        = upstream s')"
    using null_like_undefined [OF f(1) i ok, of 5] by blast
  show ?thesis
    using s' st o u by (intro exI [of _ s']) simp
qed


text \<open>
  C4, at the input where the tombstone option is disabled, the underlying method
  completes with undefined and the caller's callback asks again at once: nothing is
  stored, as the claim says, but the call made by the callback while \<^verbatim>\<open>done\<close> is in
  its loop finds the registry entry of the completed invocation, is pushed onto it and
  is lost when \<^verbatim>\<open>done\<close> clears the entry. The underlying method is invoked once, not
  twice, and the second callback is never invoked.
\<close>

theorem repoll_after_undefined_is_dropped:
  "observe (\<lambda>s. map e_key (cache s)) (run no_tombstone plain (empty_fetch Undefined) (init [])) = Some []
   \<and> observe delivered (run no_tombstone plain (empty_fetch Undefined) (init []))
       = Some [(1, Null, Undefined)]
   \<and> observe upstream (run no_tombstone plain (empty_fetch Undefined) (init []))
       = Some [(''fetch'', [Number 1])]
   \<and> observe (\<lambda>s. length (filter (\<lambda>x. x = Incr ''proxy-cache.calls'' 1 [''method:fetch'']) (stats s)))
        (run no_tombstone plain (empty_fetch Undefined) (init [])) = Some 2
   \<and> observe pending (run no_tombstone plain (empty_fetch Undefined) (init [])) = Some []
   \<and> observe (\<lambda>s. map snd (ticks s)) (run no_tombstone plain (empty_fetch Undefined) (init [])) = Some []
   \<and> observe (\<lambda>s. inFlight s ''fetch'' ''fetch:1'')
        (run no_tombstone plain (empty_fetch Undefined) (init [])) = Some None"
  by (simp add: eval_defs no_tombstone_def empty_fetch_def repoll_on_empty_def)

text \<open>
  C10, at the input where the tombstone option is disabled, the underlying method
  completes with null and the caller's callback asks again at once: null is not stored,
  as for undefined, but the call made by the callback is pushed onto the registry entry
  that \<^verbatim>\<open>done\<close> is about to clear. The underlying method is invoked once, not twice,
  and the second callback is never invoked.
\<close>

theorem repoll_after_null_is_dropped:
  "observe (\<lambda>s. map e_key (cache s)) (run no_tombstone plain (empty_fetch Null) (init [])) = Some []
   \<and> observe delivered (run no_tombstone plain (empty_fetch Null) (init []))
       = Some [(1, Null, Null)]
   \<and> observe upstream (run no_tombstone plain (empty_fetch Null) (init []))
       = Some [(''fetch'', [Number 1])]
   \<and> observe (\<lambda>s. length (filter (\<lambda>x. x = Incr ''proxy-cache.calls'' 1 [''method:fetch'']) (stats s)))
        (run no_tombstone plain (empty_fetch Null) (init [])) = Some 2
   \<and> observe pending (run no_tombstone plain (empty_fetch Null) (init [])) = Some []
   \<and> observe (\<lambda>s. map snd (ticks s)) (run no_tombstone plain (empty_fetch Null) (init [])) = Some []
   \<and> observe (\<lambda>s. inFlight s ''fetch'' ''fetch:1'')
        (run no_tombstone plain (empty_fetch Null) (init [])) = Some None"
  by (simp add: eval_defs no_tombstone_def empty_fetch_def repoll_on_empty_def)

end
